theory Spec2Isabelle
  imports Main "HOL-Library.Word"
begin

unbundle bit_operations_syntax

section \<open>Data model of \<open>class integer\<close> (integer.h)\<close>

text \<open>
  \<open>typedef uint8_t DIGIT\<close>, \<open>typedef std::deque<DIGIT> REP\<close>.  The magnitude is kept
  big-endian: element 0 is the most significant digit.  The member \<open>_sign\<close> is
  \<open>true\<close> for a negative value, \<open>_value\<close> holds the magnitude.
\<close>

type_synonym DIGIT = "8 word"
type_synonym REP = "DIGIT list"

record integer_t =
  m_sign :: bool
  m_value :: REP

datatype error = InvalidDigit | BadBase | DivisionByZero

text \<open>The constant \<open>BITS = sizeof(DIGIT) << 3\<close>.\<close>

definition BITS :: nat where
  "BITS = 8"

subsection \<open>Mathematical reading of a representation\<close>

text \<open>Value of a digit sequence given least significant digit first.\<close>

fun lsd_val :: "DIGIT list \<Rightarrow> nat" where
  "lsd_val [] = 0"
| "lsd_val (d # ds) = unat d + 256 * lsd_val ds"

text \<open>Value of a magnitude as stored (most significant digit first).\<close>

definition mag :: "REP \<Rightarrow> nat" where
  "mag v = lsd_val (rev v)"

definition to_int :: "integer_t \<Rightarrow> int" where
  "to_int x = (if m_sign x then - int (mag (m_value x)) else int (mag (m_value x)))"

subsection \<open>Normalisation\<close>

text \<open>
  Modelled from the spec: \<open>integer::trim\<close> is declared in integer.h (line 99, "remove 0
  digits from top of deque") and not defined there.  Spec 4.1: remove leading zero
  digits until the sequence is empty or its first element is non-zero; if the result is
  empty, set the sign to non-negative.
\<close>

definition trim :: "integer_t \<Rightarrow> integer_t" where
  "trim x =
     (let v = dropWhile (\<lambda>d. d = 0) (m_value x)
      in \<lparr>m_sign = (if v = [] then False else m_sign x), m_value = v\<rparr>)"

text \<open>The representation invariants of spec section 3: the fixed points of \<open>trim\<close>.\<close>

definition canonical :: "integer_t \<Rightarrow> bool" where
  "canonical x = (trim x = x)"

text \<open>
  Modelled from the spec: the default constructor \<open>integer()\<close> (declared at line 103,
  not defined there) yields zero, canonically non-negative with an empty magnitude.
\<close>

definition integer0 :: integer_t where
  "integer0 = \<lparr>m_sign = False, m_value = []\<rparr>"

text \<open>
  Modelled from the spec: \<open>operator bool\<close> (declared at line 197) returns whether the
  value is non-zero.
\<close>

definition to_bool :: "integer_t \<Rightarrow> bool" where
  "to_bool x = (\<not> list_all (\<lambda>d. d = 0) (m_value x))"

text \<open>Modelled from the spec: \<open>abs()\<close> returns the positive value of its argument.\<close>

definition integer_abs :: "integer_t \<Rightarrow> integer_t" where
  "integer_abs x = x\<lparr>m_sign := False\<rparr>"

subsection \<open>Construction from a native integer\<close>

text \<open>
  \<open>setFromZ\<close> (integer.h lines 82-97).  \<open>Z\<close> is a native integer type of some width,
  modelled as a word of that width together with a flag telling whether \<open>Z\<close> is a
  signed type.  For a signed type \<open>val < 0\<close> reads the word in two's complement,
  \<open>val = -val\<close> wraps to the width of \<open>Z\<close>, and \<open>val >>= BITS\<close> is the arithmetic
  shift of the value promoted to \<open>int\<close>.  \<open>val & NEG1\<close> keeps the low eight bits.
  The loop \<open>while (val)\<close> need not end, so the result is an option: \<open>None\<close> is
  "never returns".  The second parameter \<open>bits\<close> is not used by the function and is
  left out.  (For \<open>int32_t\<close> and \<open>int64_t\<close> the negation of the most negative
  value overflows, which C++ leaves undefined; for the narrower types it is the
  conversion back to \<open>Z\<close> that wraps.)
\<close>

partial_function (option) setFromZ_loop :: "bool \<Rightarrow> 'a::len word \<Rightarrow> REP \<Rightarrow> REP option" where
  "setFromZ_loop is_signed val v =
     (if val = 0 then Some v
      else setFromZ_loop is_signed
             (if is_signed then signed_drop_bit BITS val else drop_bit BITS val)
             ((ucast val :: DIGIT) # v))"

definition setFromZ :: "bool \<Rightarrow> 'a::len word \<Rightarrow> integer_t option" where
  "setFromZ is_signed val =
     (let neg = (is_signed \<and> sint val < 0);
          val' = (if neg then - val else val)
      in case setFromZ_loop is_signed val' [] of
           None \<Rightarrow> None
         | Some v \<Rightarrow> Some (trim \<lparr>m_sign = neg, m_value = v\<rparr>))"

text \<open>
  Modelled from the spec: the converting constructors \<open>integer(const uint8_t &)\<close> ...
  \<open>integer(const int64_t &)\<close> are declared at lines 108-117 and not defined there.
  Spec 4.2: record the sign of V, take |V|, emit the base-256 digits of |V| most
  significant first, trim.  The argument is the mathematical value of the native integer.
\<close>

fun digits_of :: "nat \<Rightarrow> REP \<Rightarrow> REP" where
  "digits_of n v = (if n = 0 then v else digits_of (n div 256) (of_nat (n mod 256) # v))"

declare digits_of.simps [simp del]

definition integer_of_Z :: "int \<Rightarrow> integer_t" where
  "integer_of_Z V = trim \<lparr>m_sign = (V < 0), m_value = digits_of (nat \<bar>V\<bar>) []\<rparr>"

subsection \<open>Comparison\<close>

text \<open>
  Modelled from the spec: \<open>gt\<close>, \<open>lt\<close> and the comparison operators are declared in
  integer.h (lines 338-418) and not defined there.  Spec 4.4: if the digit counts
  differ the longer magnitude is greater, otherwise the comparison is lexicographic from
  the most significant end.  Signed comparison: with different signs the non-negative
  operand is greater; both non-negative compares the magnitudes; both negative compares
  them reversed.  Equality ignores the sign iff both magnitudes are zero.
\<close>

fun lex_gt :: "REP \<Rightarrow> REP \<Rightarrow> bool" where
  "lex_gt (x # xs) (y # ys) = (if x = y then lex_gt xs ys else y < x)"
| "lex_gt _ _ = False"

definition gt :: "integer_t \<Rightarrow> integer_t \<Rightarrow> bool" where
  "gt lhs rhs =
     (if length (m_value lhs) = length (m_value rhs) then lex_gt (m_value lhs) (m_value rhs)
      else length (m_value rhs) < length (m_value lhs))"

definition lt :: "integer_t \<Rightarrow> integer_t \<Rightarrow> bool" where
  "lt lhs rhs =
     (if length (m_value lhs) = length (m_value rhs) then lex_gt (m_value rhs) (m_value lhs)
      else length (m_value lhs) < length (m_value rhs))"

definition op_gt :: "integer_t \<Rightarrow> integer_t \<Rightarrow> bool" where
  "op_gt a b =
     (if m_sign a = m_sign b then (if m_sign a then gt b a else gt a b)
      else m_sign b)"

definition op_le :: "integer_t \<Rightarrow> integer_t \<Rightarrow> bool" where
  "op_le a b = (\<not> op_gt a b)"

definition op_eq :: "integer_t \<Rightarrow> integer_t \<Rightarrow> bool" where
  "op_eq a b =
     (if to_bool a \<or> to_bool b then m_sign a = m_sign b \<and> m_value a = m_value b
      else True)"

subsection \<open>Addition and subtraction\<close>

text \<open>
  Modelled from the spec: \<open>add\<close>, \<open>long_sub\<close>, \<open>sub\<close>, \<open>operator+\<close> and \<open>operator-\<close>
  are declared in integer.h (lines 422-482) and not defined there.  Spec 4.6: align at
  the units digit, sum from low to high with a rolling carry held in the double-width
  digit type, append the remaining carry as a new high digit, trim.  Spec 4.7: from low to
  high compute lhs digit - rhs digit - borrow; if negative add B and set the borrow.
  The digit lists of the two helpers are least significant digit first; the
  double-width intermediate (at most 511) is written as a natural number.
\<close>

fun add_digits :: "DIGIT list \<Rightarrow> DIGIT list \<Rightarrow> nat \<Rightarrow> DIGIT list" where
  "add_digits [] [] c = (if c = 0 then [] else [of_nat c])"
| "add_digits (x # xs) [] c =
     of_nat ((unat x + c) mod 256) # add_digits xs [] ((unat x + c) div 256)"
| "add_digits [] (y # ys) c =
     of_nat ((unat y + c) mod 256) # add_digits [] ys ((unat y + c) div 256)"
| "add_digits (x # xs) (y # ys) c =
     of_nat ((unat x + unat y + c) mod 256) # add_digits xs ys ((unat x + unat y + c) div 256)"

definition add :: "integer_t \<Rightarrow> integer_t \<Rightarrow> integer_t" where
  "add lhs rhs =
     trim \<lparr>m_sign = False,
           m_value = rev (add_digits (rev (m_value lhs)) (rev (m_value rhs)) 0)\<rparr>"

fun sub_digits :: "DIGIT list \<Rightarrow> DIGIT list \<Rightarrow> int \<Rightarrow> DIGIT list" where
  "sub_digits [] ys b = []"
| "sub_digits (x # xs) [] b =
     (if uint x - b < 0 then word_of_int (uint x - b + 256) # sub_digits xs [] 1
      else word_of_int (uint x - b) # sub_digits xs [] 0)"
| "sub_digits (x # xs) (y # ys) b =
     (if uint x - uint y - b < 0 then word_of_int (uint x - uint y - b + 256) # sub_digits xs ys 1
      else word_of_int (uint x - uint y - b) # sub_digits xs ys 0)"

definition long_sub :: "integer_t \<Rightarrow> integer_t \<Rightarrow> integer_t" where
  "long_sub lhs rhs =
     trim \<lparr>m_sign = False,
           m_value = rev (sub_digits (rev (m_value lhs)) (rev (m_value rhs)) 0)\<rparr>"

definition sub :: "integer_t \<Rightarrow> integer_t \<Rightarrow> integer_t" where
  "sub lhs rhs = long_sub lhs rhs"

definition op_plus :: "integer_t \<Rightarrow> integer_t \<Rightarrow> integer_t" where
  "op_plus a b =
     (if m_sign a = m_sign b then trim ((add a b)\<lparr>m_sign := m_sign a\<rparr>)
      else if gt a b then trim ((sub a b)\<lparr>m_sign := m_sign a\<rparr>)
      else if lt a b then trim ((sub b a)\<lparr>m_sign := m_sign b\<rparr>)
      else integer0)"

definition op_minus :: "integer_t \<Rightarrow> integer_t \<Rightarrow> integer_t" where
  "op_minus a b =
     (if m_sign a \<noteq> m_sign b then trim ((add a b)\<lparr>m_sign := m_sign a\<rparr>)
      else if gt a b then trim ((sub a b)\<lparr>m_sign := m_sign a\<rparr>)
      else if lt a b then trim ((sub b a)\<lparr>m_sign := \<not> m_sign a\<rparr>)
      else integer0)"

subsection \<open>Multiplication\<close>

text \<open>
  Modelled from the spec: \<open>operator*\<close> is declared in integer.h (line 522) and not
  defined there.  Spec 4.8, schoolbook path: for each digit of rhs at position i and each
  digit of lhs at position j accumulate their product into position i + j of a result
  buffer, then propagate all carries in a second pass; the sign of the product is the
  XOR of the operand signs and zero is non-negative.  Buffer cells hold double-width
  values, written as natural numbers.  The FFT path of the spec works on floating point
  numbers and has to agree with this one on every input.
\<close>

fun add_row :: "nat list \<Rightarrow> nat list \<Rightarrow> nat list" where
  "add_row [] bs = bs"
| "add_row as [] = as"
| "add_row (a # as) (b # bs) = (a + b) # add_row as bs"

fun accumulate :: "DIGIT list \<Rightarrow> DIGIT list \<Rightarrow> nat list" where
  "accumulate [] es = []"
| "accumulate (d # ds) es = add_row (map (\<lambda>e. unat d * unat e) es) (0 # accumulate ds es)"

function propagate :: "nat list \<Rightarrow> nat \<Rightarrow> DIGIT list" where
  "propagate [] c = (if c = 0 then [] else of_nat (c mod 256) # propagate [] (c div 256))"
| "propagate (b # bs) c = of_nat ((b + c) mod 256) # propagate bs ((b + c) div 256)"
  by pat_completeness auto
termination
  by (relation "measures [\<lambda>(bs, c). length bs, \<lambda>(bs, c). c]") auto

definition schoolbook_mult :: "REP \<Rightarrow> REP \<Rightarrow> REP" where
  "schoolbook_mult lhs rhs = rev (propagate (accumulate (rev rhs) (rev lhs)) 0)"

definition op_mult :: "integer_t \<Rightarrow> integer_t \<Rightarrow> integer_t" where
  "op_mult a b =
     trim \<lparr>m_sign = (m_sign a \<noteq> m_sign b),
           m_value = schoolbook_mult (m_value a) (m_value b)\<rparr>"

subsection \<open>Shifts, bitwise or, bit length\<close>

text \<open>
  Modelled from the spec: the shift operators, \<open>operator|\<close> and \<open>bits()\<close> are declared in
  integer.h (lines 285-332, 233, 630) and not defined there.  Spec 4.5: a left shift
  by k = q * W + r appends q zero digits at the tail and shifts within digits by r with a
  rolling carry across adjacent digits from the high end to the low end; a right shift
  drops q digits from the low end and shifts within digits by r, each digit borrowing the
  low bits of the next-higher digit; the sign is preserved.  OR aligns the magnitudes at
  the least significant digit, the shorter one zero-extended, and keeps the sign of lhs.
  Spec 4.10: \<open>bits()\<close> is (digit count - 1) * W + (W - leading zeros of the top digit),
  and zero for canonical zero.
\<close>

fun shl_bits :: "nat \<Rightarrow> DIGIT \<Rightarrow> REP \<Rightarrow> REP" where
  "shl_bits r hi [] = [push_bit r hi]"
| "shl_bits r hi (d # ds) = (push_bit r hi OR drop_bit (BITS - r) d) # shl_bits r d ds"

definition op_shl :: "integer_t \<Rightarrow> nat \<Rightarrow> integer_t" where
  "op_shl x k =
     trim (x\<lparr>m_value := shl_bits (k mod BITS) 0 (m_value x) @ replicate (k div BITS) 0\<rparr>)"

fun shr_bits :: "nat \<Rightarrow> DIGIT \<Rightarrow> REP \<Rightarrow> REP" where
  "shr_bits r hi [] = []"
| "shr_bits r hi (d # ds) = (push_bit (BITS - r) hi OR drop_bit r d) # shr_bits r d ds"

definition op_shr :: "integer_t \<Rightarrow> nat \<Rightarrow> integer_t" where
  "op_shr x k =
     trim (x\<lparr>m_value :=
              shr_bits (k mod BITS) 0 (take (length (m_value x) - k div BITS) (m_value x))\<rparr>)"

fun or_digits :: "DIGIT list \<Rightarrow> DIGIT list \<Rightarrow> DIGIT list" where
  "or_digits [] ys = ys"
| "or_digits xs [] = xs"
| "or_digits (x # xs) (y # ys) = (x OR y) # or_digits xs ys"

definition op_or :: "integer_t \<Rightarrow> integer_t \<Rightarrow> integer_t" where
  "op_or a b =
     trim \<lparr>m_sign = m_sign a,
           m_value = rev (or_digits (rev (m_value a)) (rev (m_value b)))\<rparr>"

definition leading_zeros :: "DIGIT \<Rightarrow> nat" where
  "leading_zeros d = length (takeWhile (\<lambda>i. \<not> bit d i) (rev [0..<BITS]))"

definition bits :: "integer_t \<Rightarrow> nat" where
  "bits x =
     (case m_value x of
        [] \<Rightarrow> 0
      | d # ds \<Rightarrow> length ds * BITS + (BITS - leading_zeros d))"

subsection \<open>Division and modulus\<close>

text \<open>
  Modelled from the spec: \<open>non_recursive_divmod\<close>, \<open>dm\<close>, \<open>operator/\<close> and \<open>operator%\<close>
  are declared in integer.h (lines 558-588) and not defined there.  Spec 4.9: with
  n = bits(|lhs|), start from copyd = |rhs| shifted left by n - 1, adder = 1 shifted left
  by n - 1, copyn = |lhs|, q = 0; then n times (i = 0, ..., n - 1): if copyd <= copyn then
  copyn -= copyd and q |= adder; shift copyd and adder right by 1.  The remainder is the
  leftover copyn.  For n = 0 the loop body never runs, and the two shifts (by the
  truncated n - 1 = 0) are not looked at.  A zero rhs is rejected with DivisionByZero.
  The quotient gets the XOR of the operand signs, the remainder the sign of the dividend;
  like every operation both end with a trim.
\<close>

fun divmod_loop ::
  "nat \<Rightarrow> integer_t \<Rightarrow> integer_t \<Rightarrow> integer_t \<Rightarrow> integer_t \<Rightarrow> integer_t \<times> integer_t" where
  "divmod_loop 0 copyd adder copyn q = (q, copyn)"
| "divmod_loop (Suc i) copyd adder copyn q =
     (if op_le copyd copyn
      then divmod_loop i (op_shr copyd 1) (op_shr adder 1) (op_minus copyn copyd) (op_or q adder)
      else divmod_loop i (op_shr copyd 1) (op_shr adder 1) copyn q)"

definition non_recursive_divmod :: "integer_t \<Rightarrow> integer_t \<Rightarrow> integer_t \<times> integer_t" where
  "non_recursive_divmod lhs rhs =
     (let n = bits lhs
      in divmod_loop n (op_shl rhs (n - 1)) (op_shl (integer_of_Z 1) (n - 1)) lhs
           (integer_of_Z 0))"

definition dm :: "integer_t \<Rightarrow> integer_t \<Rightarrow> error + integer_t \<times> integer_t" where
  "dm lhs rhs =
     (if to_bool rhs then Inr (non_recursive_divmod lhs rhs) else Inl DivisionByZero)"

definition op_div :: "integer_t \<Rightarrow> integer_t \<Rightarrow> error + integer_t" where
  "op_div a b =
     (case dm (integer_abs a) (integer_abs b) of
        Inl e \<Rightarrow> Inl e
      | Inr qr \<Rightarrow> Inr (trim ((fst qr)\<lparr>m_sign := (m_sign a \<noteq> m_sign b)\<rparr>)))"


subsection \<open>Construction from an iterator range\<close>

text \<open>
  The character classes of \<open><cctype>\<close> in the "C" locale, on the character's code.
\<close>

definition isdigit :: "char \<Rightarrow> bool" where
  "isdigit c = (48 \<le> (of_char c :: nat) \<and> (of_char c :: nat) \<le> 57)"

definition islower :: "char \<Rightarrow> bool" where
  "islower c = (97 \<le> (of_char c :: nat) \<and> (of_char c :: nat) \<le> 122)"

definition isupper :: "char \<Rightarrow> bool" where
  "isupper c = (65 \<le> (of_char c :: nat) \<and> (of_char c :: nat) \<le> 90)"

definition isalpha :: "char \<Rightarrow> bool" where
  "isalpha c = (islower c \<or> isupper c)"

definition isxdigit :: "char \<Rightarrow> bool" where
  "isxdigit c =
     (isdigit c \<or> (97 \<le> (of_char c :: nat) \<and> (of_char c :: nat) \<le> 102)
      \<or> (65 \<le> (of_char c :: nat) \<and> (of_char c :: nat) \<le> 70))"

text \<open>
  The constructor \<open>integer(Iterator start, const Iterator & end, const uint16_t & base)\<close>
  (integer.h lines 130-176).  The range is the list of its characters; the object under
  construction starts as \<open>integer()\<close> and is threaded through the three loops.  Every
  \<open>throw std::runtime_error\<close> is an error result: "Non-digit found", "Character not
  between 'a' and 'f' found" and "Non-alphanumeric character found" are \<open>InvalidDigit\<close>,
  "Bad base provided" is \<open>BadBase\<close>.
\<close>

text \<open>Lines 137-143: \<open>*this += (*this * base) + (*start - '0')\<close>.\<close>

fun iter_decimal :: "integer_t \<Rightarrow> 16 word \<Rightarrow> string \<Rightarrow> error + integer_t" where
  "iter_decimal this base [] = Inr this"
| "iter_decimal this base (c # cs) =
     (if \<not> isdigit c then Inl InvalidDigit
      else iter_decimal
             (op_plus this
                (op_plus (op_mult this (integer_of_Z (uint base)))
                   (integer_of_Z (of_char c - 48))))
             base cs)"

text \<open>Lines 146-162: \<open>*this <<= 4\<close>, then the character is classified and added.\<close>

fun iter_hex :: "integer_t \<Rightarrow> string \<Rightarrow> error + integer_t" where
  "iter_hex this [] = Inr this"
| "iter_hex this (c # cs) =
     (if isxdigit c \<or> isalpha c then
        (if isdigit c then
           iter_hex (op_plus (op_shl this 4) (integer_of_Z (of_char c - 48))) cs
         else if islower c then
           iter_hex (op_plus (op_shl this 4) (integer_of_Z (of_char c - 97))) cs
         else if isupper c then
           iter_hex (op_plus (op_shl this 4) (integer_of_Z (of_char c - 65))) cs
         else Inl InvalidDigit)
      else Inl InvalidDigit)"

text \<open>Lines 165-168: \<open>_value.push_back(*start)\<close>.\<close>

fun iter_bytes :: "integer_t \<Rightarrow> string \<Rightarrow> integer_t" where
  "iter_bytes this [] = this"
| "iter_bytes this (c # cs) = iter_bytes (this\<lparr>m_value := m_value this @ [of_char c]\<rparr>) cs"

definition integer_iter :: "string \<Rightarrow> 16 word \<Rightarrow> error + integer_t" where
  "integer_iter input base =
     (if input = [] then Inr integer0
      else case (if 2 \<le> base \<and> base \<le> 10 then iter_decimal integer0 base input
                 else if base = 16 then iter_hex integer0 input
                 else if base = 256 then Inr (iter_bytes integer0 input)
                 else Inl BadBase) of
             Inl e \<Rightarrow> Inl e
           | Inr this \<Rightarrow> Inr (trim (this\<lparr>m_sign := False\<rparr>)))"

subsection \<open>Logarithm and power\<close>

text \<open>
  \<open>integer::log\<close> (integer.h lines 648-657): \<open>count = 0; x = *this; while (x) { x /= b;
  count++; } return count;\<close>.  The argument \<open>b\<close> is the value of the native integer
  passed in.  The loop need not end (b = 1), so the result is an option, and \<open>x /= b\<close>
  can fail (b = 0).
\<close>

partial_function (option) log_loop ::
  "integer_t \<Rightarrow> integer_t \<Rightarrow> integer_t \<Rightarrow> (error + integer_t) option" where
  "log_loop x b count =
     (if to_bool x then
        (case op_div x b of
           Inl e \<Rightarrow> Some (Inl e)
         | Inr x' \<Rightarrow> log_loop x' b (op_plus count (integer_of_Z 1)))
      else Some (Inr count))"

definition integer_log :: "integer_t \<Rightarrow> int \<Rightarrow> (error + integer_t) option" where
  "integer_log this b = log_loop this (integer_of_Z b) (integer_of_Z 0)"

text \<open>
  \<open>integer::pow\<close> (integer.h lines 660-679).  The exponent is the value of the native
  integer \<open>exp\<close>; past the test \<open>exp < 0\<close> it is non-negative, where \<open>exp & 1\<close>,
  \<open>exp >>= 1\<close>, \<open>x < exp\<close> and \<open>x++\<close> act on it as on a natural number.  The first
  argument of \<open>pow_ten_loop\<close> is the number of rounds the \<open>for\<close> loop has left.
\<close>

fun pow_ten_loop :: "nat \<Rightarrow> integer_t \<Rightarrow> integer_t \<Rightarrow> integer_t" where
  "pow_ten_loop 0 this result = result"
| "pow_ten_loop (Suc k) this result = pow_ten_loop k this (op_mult result this)"

function pow_loop :: "nat \<Rightarrow> integer_t \<Rightarrow> integer_t \<Rightarrow> integer_t" where
  "pow_loop exp result b =
     (if exp = 0 then result
      else pow_loop (drop_bit 1 exp) (if exp AND 1 \<noteq> 0 then op_mult result b else result)
             (op_mult b b))"
  by pat_completeness auto
termination
  by (relation "measure (\<lambda>(exp, result, b). exp)") (auto simp: drop_bit_eq_div)

declare pow_loop.simps [simp del]

definition integer_pow :: "integer_t \<Rightarrow> int \<Rightarrow> integer_t" where
  "integer_pow this exp =
     (if exp < 0 then integer_of_Z 0
      else if op_eq this (integer_of_Z 10)
           then pow_ten_loop (nat exp) this (integer_of_Z 1)
           else pow_loop (nat exp) (integer_of_Z 1) this)"

subsection \<open>Reference values used in the statements\<close>

text \<open>Value of a buffer of double-width cells, least significant cell first.\<close>

fun buf_val :: "nat list \<Rightarrow> nat" where
  "buf_val [] = 0"
| "buf_val (b # bs) = b + 256 * buf_val bs"

text \<open>
  How many times a natural number can be divided by the base before it becomes zero:
  the number of its digits in that base, which for n > 0 is floor(log_b n) + 1.
\<close>

function count_divisions :: "nat \<Rightarrow> nat \<Rightarrow> nat" where
  "count_divisions b n = (if n = 0 \<or> b < 2 then 0 else Suc (count_divisions b (n div b)))"
  by pat_completeness auto
termination
  by (relation "measure (\<lambda>(b, n). n)") auto

declare count_divisions.simps [simp del]

text \<open>The two loops that need not end are run through their unfolding equations.\<close>

declare setFromZ_loop.simps [code]
declare log_loop.simps [code]

section \<open>Construction from a native integer\<close>

text \<open>
  If the loop of \<open>setFromZ\<close> returns on a value of a signed type, that value was not
  negative: a negative value stays negative under the arithmetic shift and never
  becomes zero.
\<close>

lemma setFromZ_loop_Some_nonneg:
  assumes "setFromZ_loop s val v = Some y"
  shows "s \<longrightarrow> 0 \<le> sint val"
proof (rule setFromZ_loop.raw_induct [where P = "\<lambda>s val v y. s \<longrightarrow> 0 \<le> sint val", OF _ assms])
  fix loop :: "bool \<Rightarrow> 'a word \<Rightarrow> REP \<Rightarrow> REP option" and s val v y
  assume IH: "\<And>s val v y. loop s val v = Some y \<Longrightarrow> s \<longrightarrow> 0 \<le> sint val"
    and eq: "(if val = 0 then Some v
              else loop s (if s then signed_drop_bit BITS val else drop_bit BITS val)
                     (ucast val # v)) = Some y"
  show "s \<longrightarrow> 0 \<le> sint val"
  proof (cases "val = 0")
    case True
    then show ?thesis by simp
  next
    case False
    show ?thesis
    proof
      assume s
      with False eq have "loop True (signed_drop_bit BITS val) (ucast val # v) = Some y"
        by simp
      from IH [OF this] show "0 \<le> sint val"
        by (simp add: sint_signed_drop_bit_eq)
    qed
  qed
qed

lemma setFromZ_most_negative:
  fixes val :: "'a::len word"
  assumes "sint val = - (2 ^ (LENGTH('a) - 1))"
  shows "setFromZ True val = None"
proof -
  define m where "m = LENGTH('a) - 1"
  have neg: "sint val < 0" using assms by simp
  have "sint (- val) = signed_take_bit m (2 ^ m)"
    using assms by (simp add: sint_word_minus m_def)
  also have "\<dots> \<le> 2 ^ m - 2 ^ Suc m"
    by (rule signed_take_bit_int_less_eq) simp
  finally have "sint (- val) \<le> - (2 ^ m)" by simp
  moreover have "(0::int) < 2 ^ m" by simp
  ultimately have neg': "sint (- val) < 0" by linarith
  have "setFromZ_loop True (- val) [] = None"
  proof (cases "setFromZ_loop True (- val) []")
    case None
    then show ?thesis .
  next
    case (Some y)
    from setFromZ_loop_Some_nonneg [OF Some] neg' show ?thesis by simp
  qed
  then show ?thesis using neg by (simp add: setFromZ_def)
qed

text \<open>
  Claim C4 says that for every native integer V of width up to 64 bits, the most negative
  value of each signed width included, construction from V terminates with the sign of V
  and the magnitude |V|.  For the most negative value of a signed type \<open>val = -val\<close>
  leaves \<open>val\<close> unchanged and negative, the loop \<open>while (val)\<close> then shifts it down to
  -1 and stays there, pushing digits for ever: with \<open>int8_t\<close> -128 and \<open>int16_t\<close>
  -32768 the function never returns.
\<close>

theorem C4_most_negative_never_returns:
  "setFromZ True (- 128 :: 8 word) = None \<and> setFromZ True (- 32768 :: 16 word) = None"
proof
  show "setFromZ True (- 128 :: 8 word) = None"
    by (rule setFromZ_most_negative) simp
  show "setFromZ True (- 32768 :: 16 word) = None"
    by (rule setFromZ_most_negative) simp
qed

text \<open>
  On every other input, that is every value of an unsigned type and every value of a
  signed type but the most negative one, \<open>setFromZ\<close> returns what the converting
  constructors are specified to build.
\<close>

lemma signed_drop_bit_nonneg:
  fixes w :: "'a::len word"
  assumes "0 \<le> sint w"
  shows "signed_drop_bit n w = drop_bit n w"
proof (rule bit_word_eqI)
  fix i assume "i < LENGTH('a)"
  have nb: "\<not> bit w (LENGTH('a) - Suc 0)" using assms by (simp add: bit_last_iff)
  show "bit (signed_drop_bit n w) i = bit (drop_bit n w) i"
    using nb \<open>i < LENGTH('a)\<close>
    by (auto simp: bit_signed_drop_bit_iff bit_drop_bit_eq dest: bit_imp_le_length)
qed

lemma ucast_low_digit: "(ucast (val :: 'a::len word) :: DIGIT) = of_nat (unat val mod 256)"
  by (simp add: word_unat_eq_iff unat_of_nat unsigned_ucast_eq take_bit_eq_mod)

lemma setFromZ_loop_nonneg:
  fixes val :: "'a::len word"
  assumes "s \<longrightarrow> 0 \<le> sint val"
  shows "setFromZ_loop s val v = Some (digits_of (unat val) v)"
  using assms
proof (induction "unat val" arbitrary: val v rule: less_induct)
  case less
  show ?case
  proof (cases "val = 0")
    case True
    then show ?thesis
      by (subst setFromZ_loop.simps) (simp add: digits_of.simps)
  next
    case False
    have eq: "(if s then signed_drop_bit BITS val else drop_bit BITS val) = drop_bit 8 val"
      using less.prems by (simp add: signed_drop_bit_nonneg BITS_def)
    have u: "unat (drop_bit 8 val) = unat val div 256"
      by (simp only: unat_drop_bit_eq) (simp add: drop_bit_eq_div)
    have "unat val \<noteq> 0" using False by (simp add: unat_eq_0)
    then have lt: "unat (drop_bit 8 val) < unat val" using u by simp
    have nn: "s \<longrightarrow> 0 \<le> sint (drop_bit 8 val)"
      using less.prems signed_drop_bit_nonneg [of val 8, symmetric]
      by (auto simp: sint_signed_drop_bit_eq)
    have ih: "setFromZ_loop s (drop_bit 8 val) (ucast val # v)
                = Some (digits_of (unat (drop_bit 8 val)) (ucast val # v))"
      by (rule less.hyps [OF lt nn])
    have "setFromZ_loop s val v = setFromZ_loop s (drop_bit 8 val) (ucast val # v)"
      using False by (subst setFromZ_loop.simps) (simp only: eq if_False)
    also have "\<dots> = Some (digits_of (unat val div 256) (of_nat (unat val mod 256) # v))"
      using ih by (simp only: u ucast_low_digit)
    also have "\<dots> = Some (digits_of (unat val) v)"
      using \<open>unat val \<noteq> 0\<close> by (subst (2) digits_of.simps) simp
    finally show ?thesis .
  qed
qed


lemma sint_eq_uint_nonneg:
  fixes w :: "'a::len word"
  assumes "0 \<le> sint w"
  shows "sint w = uint w"
proof -
  have "sint w < 2 ^ (LENGTH('a) - 1)" by (rule sint_lt)
  also have "(2::int) ^ (LENGTH('a) - 1) \<le> 2 ^ LENGTH('a)"
    by (rule power_increasing) simp_all
  finally have "take_bit LENGTH('a) (sint w) = sint w"
    using assms by (simp add: take_bit_int_eq_self)
  then show ?thesis by (simp add: uint_sint)
qed

lemma setFromZ_correct:
  fixes val :: "'a::len word"
  assumes "is_signed \<longrightarrow> sint val \<noteq> - (2 ^ (LENGTH('a) - 1))"
  shows "setFromZ is_signed val = Some (integer_of_Z (if is_signed then sint val else uint val))"
proof (cases "is_signed \<and> sint val < 0")
  case True
  define m where "m = LENGTH('a) - 1"
  have neg: "sint val < 0" using True by simp
  have lo: "- (2 ^ m) < sint val"
    using assms True sint_ge [of val] by (simp add: m_def)
  have "- sint val < 2 ^ m" using lo by simp
  moreover have "- (2 ^ m) \<le> - sint val"
  proof -
    have "(0::int) < 2 ^ m" by simp
    then show ?thesis using neg by linarith
  qed
  ultimately have "signed_take_bit m (- sint val) = - sint val"
    by (simp add: signed_take_bit_int_eq_self)
  then have sm: "sint (- val) = - sint val"
    by (simp add: sint_word_minus m_def)
  then have nn: "0 \<le> sint (- val)" using neg by simp
  have "int (unat (- val)) = uint (- val)" by simp
  also have "\<dots> = sint (- val)" using nn by (simp add: sint_eq_uint_nonneg)
  also have "\<dots> = \<bar>sint val\<bar>" using sm neg by simp
  finally have un: "unat (- val) = nat \<bar>sint val\<bar>" by linarith
  have loop: "setFromZ_loop True (- val) [] = Some (digits_of (nat \<bar>sint val\<bar>) [])"
  proof -
    have "True \<longrightarrow> 0 \<le> sint (- val)" using nn by simp
    from setFromZ_loop_nonneg [OF this, of "[]"] show ?thesis by (simp only: un)
  qed
  show ?thesis
    using True by (simp add: setFromZ_def integer_of_Z_def loop Let_def)
next
  case False
  define V where "V = (if is_signed then sint val else uint val)"
  have nn: "is_signed \<longrightarrow> 0 \<le> sint val" using False by auto
  have V: "V = uint val"
    using nn by (auto simp: V_def sint_eq_uint_nonneg)
  have "int (unat val) = \<bar>V\<bar>" by (simp add: V)
  then have un: "unat val = nat \<bar>V\<bar>" by linarith
  have loop: "setFromZ_loop is_signed val [] = Some (digits_of (nat \<bar>V\<bar>) [])"
    using setFromZ_loop_nonneg [OF nn, of "[]"] by (simp only: un)
  have pos: "\<not> V < 0" by (simp add: V)
  have negF: "(is_signed \<and> sint val < 0) = False" using False by simp
  have "setFromZ is_signed val = Some (integer_of_Z V)"
    unfolding setFromZ_def Let_def negF using pos
    by (simp add: integer_of_Z_def loop)
  then show ?thesis by (simp only: V_def)
qed

section \<open>Values of representations\<close>

lemma lsd_val_append: "lsd_val (xs @ ys) = lsd_val xs + 256 ^ length xs * lsd_val ys"
  by (induction xs) (simp_all add: algebra_simps)

lemma lsd_val_lt: "lsd_val ds < 256 ^ length ds"
proof (induction ds)
  case Nil
  show ?case by simp
next
  case (Cons d ds)
  have "unat d < 256" using unsigned_less [of d] by simp
  with Cons show ?case by simp
qed

lemma mag_Nil [simp]: "mag [] = 0"
  by (simp add: mag_def)

lemma mag_Cons: "mag (d # ds) = unat d * 256 ^ length ds + mag ds"
  by (simp add: mag_def lsd_val_append)

lemma mag_append: "mag (xs @ ys) = mag xs * 256 ^ length ys + mag ys"
  by (simp add: mag_def lsd_val_append)

lemma mag_rev: "mag (rev ds) = lsd_val ds"
  by (simp add: mag_def)

lemma mag_lt: "mag v < 256 ^ length v"
  using lsd_val_lt [of "rev v"] by (simp add: mag_def)

lemma mag_dropWhile_zero: "mag (dropWhile (\<lambda>d. d = 0) v) = mag v"
  by (induction v) (simp_all add: mag_Cons)

lemma mag_trim [simp]: "mag (m_value (trim x)) = mag (m_value x)"
  by (simp add: trim_def Let_def mag_dropWhile_zero)

lemma dropWhile_zero_Nil_mag:
  assumes "dropWhile (\<lambda>d. d = 0) v = []"
  shows "mag v = 0"
proof -
  have "mag v = mag (dropWhile (\<lambda>d. d = 0) v)" by (simp only: mag_dropWhile_zero)
  also have "\<dots> = 0" by (simp only: assms mag_Nil)
  finally show ?thesis .
qed

lemma to_int_trim [simp]: "to_int (trim x) = to_int x"
  by (auto simp: to_int_def trim_def Let_def mag_dropWhile_zero dropWhile_zero_Nil_mag)

lemma canonical_trim [simp]: "canonical (trim x)"
  by (auto simp: canonical_def trim_def Let_def)

lemma mag_digits_of: "mag (digits_of n v) = n * 256 ^ length v + mag v"
proof (induction n v rule: digits_of.induct)
  case (1 n v)
  show ?case
  proof (cases "n = 0")
    case True
    then show ?thesis by (subst digits_of.simps) simp
  next
    case False
    have "mag (digits_of n v) = mag (digits_of (n div 256) (of_nat (n mod 256) # v))"
      using False by (subst digits_of.simps) simp
    also have "\<dots> = (n div 256) * 256 ^ Suc (length v) + mag ((of_nat (n mod 256) :: DIGIT) # v)"
      using 1 [OF False] by simp
    also have "\<dots> = (n div 256) * 256 ^ Suc (length v) + n mod 256 * 256 ^ length v + mag v"
      by (simp add: mag_Cons unat_of_nat)
    also have "(n div 256) * 256 ^ Suc (length v) + n mod 256 * 256 ^ length v
                 = (n div 256 * 256 + n mod 256) * 256 ^ length v"
      by (simp only: power_Suc algebra_simps)
    also have "\<dots> = n * 256 ^ length v" by simp
    finally show ?thesis .
  qed
qed

lemma to_int_integer_of_Z [simp]: "to_int (integer_of_Z V) = V"
proof -
  have "to_int (integer_of_Z V) = to_int \<lparr>m_sign = (V < 0), m_value = digits_of (nat \<bar>V\<bar>) []\<rparr>"
    by (simp only: integer_of_Z_def to_int_trim)
  also have "\<dots> = V" by (simp add: to_int_def mag_digits_of)
  finally show ?thesis .
qed

lemma canonical_integer_of_Z [simp]: "canonical (integer_of_Z V)"
  by (simp add: integer_of_Z_def)

lemma canonical_integer0 [simp]: "canonical integer0"
  by (simp add: canonical_def trim_def integer0_def)

lemma to_int_integer0 [simp]: "to_int integer0 = 0"
  by (simp add: to_int_def integer0_def)

section \<open>Multiplication and \<open>pow\<close>\<close>

text \<open>The schoolbook product: the buffer holds the product, carry propagation keeps it.\<close>

lemma buf_val_add_row: "buf_val (add_row as bs) = buf_val as + buf_val bs"
  by (induction as bs rule: add_row.induct) (simp_all add: algebra_simps)

lemma buf_val_scale: "buf_val (map (\<lambda>e. d * unat e) es) = d * lsd_val es"
  by (induction es) (simp_all add: algebra_simps)

lemma buf_val_accumulate: "buf_val (accumulate ds es) = lsd_val ds * lsd_val es"
  by (induction ds) (simp_all add: buf_val_add_row buf_val_scale algebra_simps)

lemma lsd_val_propagate: "lsd_val (propagate bs c) = buf_val bs + c"
proof (induction bs c rule: propagate.induct)
  case (1 c)
  show ?case
  proof (cases "c = 0")
    case True
    then show ?thesis by simp
  next
    case False
    have "lsd_val (propagate [] c) = c mod 256 + 256 * lsd_val (propagate [] (c div 256))"
      using False by (simp add: unat_of_nat)
    also have "\<dots> = c mod 256 + 256 * (c div 256)"
      using 1 [OF False] by simp
    finally show ?thesis by simp
  qed
next
  case (2 b bs c)
  have "lsd_val (propagate (b # bs) c)
          = (b + c) mod 256 + 256 * lsd_val (propagate bs ((b + c) div 256))"
    by (simp add: unat_of_nat)
  also have "\<dots> = (b + c) mod 256 + 256 * (buf_val bs + (b + c) div 256)"
    using 2 by simp
  also have "\<dots> = ((b + c) mod 256 + 256 * ((b + c) div 256)) + 256 * buf_val bs"
    by (simp only: algebra_simps)
  also have "\<dots> = buf_val (b # bs) + c" by simp
  finally show ?case .
qed

lemma mag_schoolbook_mult: "mag (schoolbook_mult lhs rhs) = mag lhs * mag rhs"
  by (simp add: schoolbook_mult_def mag_rev lsd_val_propagate buf_val_accumulate mag_def)

lemma to_int_op_mult [simp]: "to_int (op_mult a b) = to_int a * to_int b"
proof -
  have "to_int (op_mult a b)
          = to_int \<lparr>m_sign = (m_sign a \<noteq> m_sign b),
                    m_value = schoolbook_mult (m_value a) (m_value b)\<rparr>"
    by (simp only: op_mult_def to_int_trim)
  also have "\<dots> = to_int a * to_int b"
    by (simp add: to_int_def mag_schoolbook_mult)
  finally show ?thesis .
qed

lemma canonical_op_mult [simp]: "canonical (op_mult a b)"
  by (simp add: op_mult_def)

lemma to_int_pow_ten_loop:
  "to_int (pow_ten_loop k this result) = to_int result * to_int this ^ k"
  by (induction k arbitrary: result) simp_all

lemma to_int_pow_loop:
  "to_int (pow_loop exp result b) = to_int result * to_int b ^ exp"
proof (induction exp result b rule: pow_loop.induct)
  case (1 exp result b)
  show ?case
  proof (cases "exp = 0")
    case True
    then show ?thesis by (subst pow_loop.simps) simp
  next
    case False
    let ?r = "if exp AND 1 \<noteq> 0 then op_mult result b else result"
    have odd: "(exp AND 1 \<noteq> 0) = odd exp"
      by (simp add: and_one_eq mod_2_eq_odd)
    have half: "drop_bit 1 exp = exp div 2"
      by (simp add: drop_bit_eq_div)
    have bsq: "to_int b ^ exp = (to_int b * to_int b) ^ (exp div 2) * (if odd exp then to_int b else 1)"
    proof -
      have "exp = 2 * (exp div 2) + (if odd exp then 1 else 0)"
        by (auto elim: oddE)
      then have "to_int b ^ exp = to_int b ^ (2 * (exp div 2) + (if odd exp then 1 else 0))"
        by simp
      also have "\<dots> = (to_int b * to_int b) ^ (exp div 2) * (if odd exp then to_int b else 1)"
        by (simp add: power_add power_mult power2_eq_square)
      finally show ?thesis .
    qed
    have "to_int (pow_loop exp result b) = to_int (pow_loop (drop_bit 1 exp) ?r (op_mult b b))"
      using False by (subst pow_loop.simps) simp
    also have "\<dots> = to_int ?r * to_int (op_mult b b) ^ drop_bit 1 exp"
      by (rule 1 [OF False])
    also have "\<dots> = (to_int result * (if odd exp then to_int b else 1))
                          * (to_int b * to_int b) ^ (exp div 2)"
      unfolding odd half by simp
    also have "\<dots> = to_int result * to_int b ^ exp"
      unfolding bsq by (simp only: ac_simps)
    finally show ?thesis .
  qed
qed

lemma canonical_pow_ten_loop: "canonical result \<Longrightarrow> canonical (pow_ten_loop k this result)"
  by (induction k arbitrary: result) simp_all

lemma canonical_pow_loop: "canonical result \<Longrightarrow> canonical (pow_loop exp result b)"
proof (induction exp result b rule: pow_loop.induct)
  case (1 exp result b)
  show ?case
  proof (cases "exp = 0")
    case True
    then show ?thesis using 1(2) by (subst pow_loop.simps) simp
  next
    case False
    have "canonical (pow_loop (drop_bit 1 exp) (if exp AND 1 \<noteq> 0 then op_mult result b else result) (op_mult b b))"
      by (rule 1(1) [OF False]) (simp add: 1(2))
    then show ?thesis using False by (subst pow_loop.simps) simp
  qed
qed

text \<open>
  Claim C6.  For every value v and every exponent e, \<open>pow\<close> returns v to the power e
  when e is not negative and zero when e is negative.  Both internal paths, the repeated
  multiplication taken when v equals 10 and the binary squaring taken otherwise, compute
  the same power on every v, so the result does not depend on which one the test
  \<open>*this == 10\<close> selects.
\<close>

theorem C6_pow:
  "to_int (integer_pow v e) = (if e < 0 then 0 else to_int v ^ nat e)
   \<and> canonical (integer_pow v e)
   \<and> to_int (pow_ten_loop (nat e) v (integer_of_Z 1)) = to_int v ^ nat e
   \<and> to_int (pow_loop (nat e) (integer_of_Z 1) v) = to_int v ^ nat e"
  by (simp add: integer_pow_def to_int_pow_ten_loop to_int_pow_loop canonical_pow_ten_loop canonical_pow_loop)

theorem C6_pow_witness:
  "to_int (integer_pow (integer_of_Z 2) 100) = 1267650600228229401496703205376
   \<and> to_int (integer_pow (integer_of_Z 10) 3) = 1000
   \<and> to_int (integer_pow (integer_of_Z 7) (- 1)) = 0"
  using C6_pow [of "integer_of_Z 2" 100] C6_pow [of "integer_of_Z 10" 3]
    C6_pow [of "integer_of_Z 7" "- 1"]
  by simp

section \<open>Comparison, addition and subtraction\<close>

text \<open>A well-formed representation has no leading zero digit and no negative zero.\<close>

lemma canonical_trimmed: "canonical x \<Longrightarrow> dropWhile (\<lambda>d. d = 0) (m_value x) = m_value x"
  by (cases x) (auto simp: canonical_def trim_def Let_def)

lemma canonical_sign_nonempty: "canonical x \<Longrightarrow> m_sign x \<Longrightarrow> m_value x \<noteq> []"
  by (cases x) (auto simp: canonical_def trim_def Let_def split: if_splits)

lemma trimmed_lower:
  assumes "dropWhile (\<lambda>d. d = 0) v = v" and "v \<noteq> []"
  shows "256 ^ (length v - 1) \<le> mag v"
proof (cases v)
  case Nil
  with assms show ?thesis by simp
next
  case (Cons d ds)
  have "d \<noteq> 0"
  proof
    assume "d = 0"
    then have "dropWhile (\<lambda>d. d = 0) v = dropWhile (\<lambda>d. d = 0) ds" using Cons by simp
    then have "length v \<le> length ds"
      using length_dropWhile_le [of "\<lambda>d. d = 0" ds] assms(1) by simp
    then show False using Cons by simp
  qed
  then have "1 \<le> unat d" by (simp add: unat_gt_0 Suc_le_eq)
  then have "1 * 256 ^ length ds \<le> unat d * 256 ^ length ds" by (rule mult_le_mono1)
  then have "1 * 256 ^ length ds \<le> unat d * 256 ^ length ds + mag ds" by (rule trans_le_add1)
  then have "256 ^ length ds \<le> unat d * 256 ^ length ds + mag ds" by (simp only: mult_1)
  then show ?thesis using Cons by (simp add: mag_Cons)
qed

lemma canonical_mag_pos: "canonical x \<Longrightarrow> m_value x \<noteq> [] \<Longrightarrow> 0 < mag (m_value x)"
proof -
  assume "canonical x" and ne: "m_value x \<noteq> []"
  then have "256 ^ (length (m_value x) - 1) \<le> mag (m_value x)"
    by (intro trimmed_lower canonical_trimmed)
  moreover have "(0::nat) < 256 ^ (length (m_value x) - 1)" by simp
  ultimately show ?thesis by linarith
qed

lemma canonical_negative: "canonical x \<Longrightarrow> m_sign x \<Longrightarrow> to_int x < 0"
  using canonical_mag_pos [of x] canonical_sign_nonempty [of x] by (simp add: to_int_def)

lemma canonical_sign_iff: "canonical x \<Longrightarrow> m_sign x = (to_int x < 0)"
  using canonical_negative [of x] by (auto simp: to_int_def)

lemma lex_gt_iff:
  "length xs = length ys \<Longrightarrow> lex_gt xs ys = (mag ys < mag xs)"
proof (induction xs ys rule: list_induct2)
  case Nil
  show ?case by simp
next
  case (Cons x xs y ys)
  show ?case
  proof (cases "x = y")
    case True
    with Cons show ?thesis by (simp add: mag_Cons)
  next
    case False
    have len: "length ys = length xs" using Cons by simp
    show ?thesis
    proof (cases "y < x")
      case True
      then have "unat y + 1 \<le> unat x" by (simp add: word_less_nat_alt)
      then have "(unat y + 1) * 256 ^ length xs \<le> unat x * 256 ^ length xs"
        by (rule mult_le_mono1)
      moreover have "mag ys < 256 ^ length xs" using mag_lt [of ys] len by simp
      ultimately have "mag (y # ys) < mag (x # xs)"
        by (simp add: mag_Cons len algebra_simps)
      with True False show ?thesis by simp
    next
      case nlt: False
      with False have "x < y" by simp
      then have "unat x + 1 \<le> unat y" by (simp add: word_less_nat_alt)
      then have "(unat x + 1) * 256 ^ length xs \<le> unat y * 256 ^ length xs"
        by (rule mult_le_mono1)
      moreover have "mag xs < 256 ^ length xs" by (rule mag_lt)
      ultimately have "mag (x # xs) < mag (y # ys)"
        by (simp add: mag_Cons len algebra_simps)
      with nlt False show ?thesis by simp
    qed
  qed
qed

lemma longer_trimmed_greater:
  assumes "dropWhile (\<lambda>d. d = 0) xs = xs" and "length ys < length xs"
  shows "mag ys < mag xs"
proof -
  have "xs \<noteq> []" using assms(2) by auto
  then have "256 ^ (length xs - 1) \<le> mag xs" using assms(1) by (intro trimmed_lower)
  moreover have "mag ys < 256 ^ length ys" by (rule mag_lt)
  moreover have "(256::nat) ^ length ys \<le> 256 ^ (length xs - 1)"
    using assms(2) by (intro power_increasing) simp_all
  ultimately show ?thesis by linarith
qed

lemma gt_iff:
  assumes "canonical a" and "canonical b"
  shows "gt a b = (mag (m_value b) < mag (m_value a))"
proof (cases "length (m_value a) = length (m_value b)")
  case True
  then show ?thesis by (simp add: gt_def lex_gt_iff)
next
  case False
  show ?thesis
  proof (cases "length (m_value b) < length (m_value a)")
    case True
    then have "mag (m_value b) < mag (m_value a)"
      using canonical_trimmed [OF assms(1)] by (intro longer_trimmed_greater)
    with True False show ?thesis by (simp add: gt_def)
  next
    case nlt: False
    with False have "length (m_value a) < length (m_value b)" by simp
    then have "mag (m_value a) < mag (m_value b)"
      using canonical_trimmed [OF assms(2)] by (intro longer_trimmed_greater)
    with nlt False show ?thesis by (simp add: gt_def)
  qed
qed

lemma lt_iff:
  assumes "canonical a" and "canonical b"
  shows "lt a b = (mag (m_value a) < mag (m_value b))"
proof -
  have "lt a b = gt b a" by (auto simp: lt_def gt_def)
  then show ?thesis using gt_iff [OF assms(2) assms(1)] by simp
qed

lemma op_gt_iff:
  assumes "canonical a" and "canonical b"
  shows "op_gt a b = (to_int b < to_int a)"
proof (cases "m_sign a = m_sign b")
  case True
  then show ?thesis
    using gt_iff [OF assms] gt_iff [OF assms(2) assms(1)]
    by (auto simp: op_gt_def to_int_def)
next
  case False
  then show ?thesis
    using canonical_negative [OF assms(1)] canonical_negative [OF assms(2)]
    by (auto simp: op_gt_def to_int_def)
qed

lemma op_le_iff: "canonical a \<Longrightarrow> canonical b \<Longrightarrow> op_le a b = (to_int a \<le> to_int b)"
  by (auto simp: op_le_def op_gt_iff)

lemma unat_digit_lt: "unat (d :: DIGIT) < 256"
  using unsigned_less [of d] by simp

lemma lsd_val_add_digits:
  "c \<le> 1 \<Longrightarrow> lsd_val (add_digits xs ys c) = lsd_val xs + lsd_val ys + c"
proof (induction xs ys c rule: add_digits.induct)
  case (1 c)
  then show ?case by (auto simp: unat_of_nat)
next
  case (2 x xs c)
  have "(unat x + c) div 256 \<le> 1" using unat_digit_lt [of x] 2(2) by simp
  from 2(1) [OF this] show ?case by (simp add: unat_of_nat)
next
  case (3 y ys c)
  have "(unat y + c) div 256 \<le> 1" using unat_digit_lt [of y] 3(2) by simp
  from 3(1) [OF this] show ?case by (simp add: unat_of_nat)
next
  case (4 x xs y ys c)
  have "(unat x + unat y + c) div 256 \<le> 1"
    using unat_digit_lt [of x] unat_digit_lt [of y] 4(2) by simp
  from 4(1) [OF this] show ?case by (simp add: unat_of_nat)
qed

lemma mag_add: "mag (m_value (add lhs rhs)) = mag (m_value lhs) + mag (m_value rhs)"
  by (simp add: add_def mag_rev lsd_val_add_digits) (simp add: mag_def)

lemma uint_word_of_int_digit: "0 \<le> k \<Longrightarrow> k < 256 \<Longrightarrow> uint (word_of_int k :: DIGIT) = k"
  by transfer (simp add: take_bit_int_eq_self)

lemma uint_digit_lt: "uint (d :: DIGIT) < 256"
  using unsigned_less [of d, where 'a = int] by simp

lemma int_lsd_val_Cons: "int (lsd_val (d # ds)) = uint d + 256 * int (lsd_val ds)"
  by simp

lemma int_lsd_val_sub_digits:
  "0 \<le> b \<Longrightarrow> b \<le> 1 \<Longrightarrow> int (lsd_val ys) + b \<le> int (lsd_val xs)
   \<Longrightarrow> int (lsd_val (sub_digits xs ys b)) + int (lsd_val ys) + b = int (lsd_val xs)"
proof (induction xs ys b rule: sub_digits.induct)
  case (1 ys b)
  then show ?case by simp
next
  case (2 x xs b)
  have x0: "0 \<le> uint x" and x1: "uint x < 256" by (simp_all add: uint_digit_lt)
  have pre: "b \<le> uint x + 256 * int (lsd_val xs)" using "2.prems"(3) by simp
  show ?case
  proof (cases "uint x - b < 0")
    case True
    have d: "uint (word_of_int (uint x - b + 256) :: DIGIT) = uint x - b + 256"
      using True x0 "2.prems" by (intro uint_word_of_int_digit) linarith+
    have "int (lsd_val []) + 1 \<le> int (lsd_val xs)" using pre True x0 by simp
    then have "int (lsd_val (sub_digits xs [] 1)) + int (lsd_val []) + 1 = int (lsd_val xs)"
      using True by (intro "2.IH"(1)) simp_all
    then have "int (lsd_val (sub_digits xs [] 1)) = int (lsd_val xs) - 1" by simp
    then show ?thesis
      using True by (simp only: sub_digits.simps if_True int_lsd_val_Cons d) simp
  next
    case False
    have d: "uint (word_of_int (uint x - b) :: DIGIT) = uint x - b"
      using False x1 "2.prems" by (intro uint_word_of_int_digit) linarith+
    have "int (lsd_val (sub_digits xs [] 0)) + int (lsd_val []) + 0 = int (lsd_val xs)"
      using False by (intro "2.IH"(2)) simp_all
    then have "int (lsd_val (sub_digits xs [] 0)) = int (lsd_val xs)" by simp
    then show ?thesis
      using False by (simp only: sub_digits.simps if_False int_lsd_val_Cons d) simp
  qed
next
  case (3 x xs y ys b)
  have x0: "0 \<le> uint x" and x1: "uint x < 256" by (simp_all add: uint_digit_lt)
  have y0: "0 \<le> uint y" and y1: "uint y < 256" by (simp_all add: uint_digit_lt)
  have pre: "uint y + 256 * int (lsd_val ys) + b \<le> uint x + 256 * int (lsd_val xs)"
    using "3.prems"(3) by simp
  show ?case
  proof (cases "uint x - uint y - b < 0")
    case True
    have d: "uint (word_of_int (uint x - uint y - b + 256) :: DIGIT) = uint x - uint y - b + 256"
      using True x0 y1 "3.prems" by (intro uint_word_of_int_digit) linarith+
    have "int (lsd_val ys) + 1 \<le> int (lsd_val xs)" using pre True x0 y1 "3.prems" by linarith
    then have "int (lsd_val (sub_digits xs ys 1)) + int (lsd_val ys) + 1 = int (lsd_val xs)"
      using True by (intro "3.IH"(1)) simp_all
    then have "int (lsd_val (sub_digits xs ys 1)) = int (lsd_val xs) - int (lsd_val ys) - 1"
      by simp
    then show ?thesis
      using True by (simp only: sub_digits.simps if_True int_lsd_val_Cons d) simp
  next
    case False
    have d: "uint (word_of_int (uint x - uint y - b) :: DIGIT) = uint x - uint y - b"
      using False x1 y0 "3.prems" by (intro uint_word_of_int_digit) linarith+
    have "int (lsd_val ys) + 0 \<le> int (lsd_val xs)" using pre False x1 y0 "3.prems" by linarith
    then have "int (lsd_val (sub_digits xs ys 0)) + int (lsd_val ys) + 0 = int (lsd_val xs)"
      using False by (intro "3.IH"(2)) simp_all
    then have "int (lsd_val (sub_digits xs ys 0)) = int (lsd_val xs) - int (lsd_val ys)"
      by simp
    then show ?thesis
      using False by (simp only: sub_digits.simps if_False int_lsd_val_Cons d) simp
  qed
qed

lemma mag_long_sub:
  assumes "mag (m_value rhs) \<le> mag (m_value lhs)"
  shows "mag (m_value (long_sub lhs rhs)) = mag (m_value lhs) - mag (m_value rhs)"
proof -
  have "int (lsd_val (rev (m_value rhs))) + 0 \<le> int (lsd_val (rev (m_value lhs)))"
    using assms by (simp add: mag_def)
  then have "int (lsd_val (sub_digits (rev (m_value lhs)) (rev (m_value rhs)) 0))
               + int (lsd_val (rev (m_value rhs))) + 0 = int (lsd_val (rev (m_value lhs)))"
    by (intro int_lsd_val_sub_digits) simp_all
  then have "lsd_val (sub_digits (rev (m_value lhs)) (rev (m_value rhs)) 0)
               = mag (m_value lhs) - mag (m_value rhs)"
    by (simp add: mag_def)
  then show ?thesis by (simp add: long_sub_def mag_rev)
qed


lemma to_int_sign_update:
  "to_int (x\<lparr>m_sign := s\<rparr>) = (if s then - int (mag (m_value x)) else int (mag (m_value x)))"
  by (simp add: to_int_def)

lemma to_int_op_plus:
  assumes "canonical a" and "canonical b"
  shows "to_int (op_plus a b) = to_int a + to_int b"
proof (cases "m_sign a = m_sign b")
  case True
  then show ?thesis
    by (simp add: op_plus_def to_int_sign_update mag_add) (simp add: to_int_def)
next
  case False
  note g = gt_iff [OF assms] and l = lt_iff [OF assms]
  show ?thesis
  proof (cases "gt a b")
    case True
    then have "mag (m_value b) \<le> mag (m_value a)" using g by simp
    then show ?thesis
      using True False
      by (simp add: op_plus_def sub_def to_int_sign_update mag_long_sub) (auto simp: to_int_def)
  next
    case ngt: False
    show ?thesis
    proof (cases "lt a b")
      case True
      then have "mag (m_value a) \<le> mag (m_value b)" using l by simp
      then show ?thesis
        using True False ngt
        by (simp add: op_plus_def sub_def to_int_sign_update mag_long_sub) (auto simp: to_int_def)
    next
      case nlt: False
      then have "mag (m_value a) = mag (m_value b)" using ngt g l by simp
      then show ?thesis
        using nlt ngt False by (auto simp: op_plus_def to_int_def integer0_def)
    qed
  qed
qed

lemma to_int_op_minus:
  assumes "canonical a" and "canonical b"
  shows "to_int (op_minus a b) = to_int a - to_int b"
proof (cases "m_sign a = m_sign b")
  case False
  then show ?thesis
    by (simp add: op_minus_def to_int_sign_update mag_add) (auto simp: to_int_def)
next
  case True
  note g = gt_iff [OF assms] and l = lt_iff [OF assms]
  show ?thesis
  proof (cases "gt a b")
    case gt: True
    then have "mag (m_value b) \<le> mag (m_value a)" using g by simp
    then show ?thesis
      using True gt
      by (simp add: op_minus_def sub_def to_int_sign_update mag_long_sub) (auto simp: to_int_def)
  next
    case ngt: False
    show ?thesis
    proof (cases "lt a b")
      case lt: True
      then have "mag (m_value a) \<le> mag (m_value b)" using l by simp
      then show ?thesis
        using True lt ngt
        by (simp add: op_minus_def sub_def to_int_sign_update mag_long_sub) (auto simp: to_int_def)
    next
      case nlt: False
      then have "mag (m_value a) = mag (m_value b)" using ngt g l by simp
      then show ?thesis
        using nlt ngt True by (auto simp: op_minus_def to_int_def integer0_def)
    qed
  qed
qed

lemma canonical_op_plus [simp]: "canonical (op_plus a b)"
  by (simp add: op_plus_def)

lemma canonical_op_minus [simp]: "canonical (op_minus a b)"
  by (simp add: op_minus_def)

section \<open>Shifts, bitwise or and bit length\<close>

text \<open>A left shift by k multiplies the magnitude by 2 to the power k.\<close>

lemma unat_push_bit_digit: "unat (push_bit r (hi :: DIGIT)) = (unat hi * 2 ^ r) mod 256"
  by (simp only: unsigned_push_bit_eq) (simp add: take_bit_eq_mod push_bit_eq_mult)

lemma unat_shl_digit:
  fixes hi d :: DIGIT
  assumes "r < 8"
  shows "unat (push_bit r hi OR drop_bit (8 - r) d) = (unat hi * 2 ^ r) mod 256 + unat d div 2 ^ (8 - r)"
proof -
  have disj: "\<And>n. \<not> bit (push_bit r hi) n \<or> \<not> bit (drop_bit (8 - r) d) n"
    using assms by (auto simp: bit_push_bit_iff bit_drop_bit_eq dest!: bit_imp_le_length)
  have "unat (push_bit r hi OR drop_bit (8 - r) d) = unat (push_bit r hi) OR unat (drop_bit (8 - r) d)"
    by (rule unsigned_or_eq)
  also have "\<dots> = unat (push_bit r hi) + unat (drop_bit (8 - r) d)"
    by (rule disjunctive_add [symmetric]) (use disj in \<open>simp add: bit_unsigned_iff\<close>)
  also have "unat (push_bit r hi) = (unat hi * 2 ^ r) mod 256"
    by (rule unat_push_bit_digit)
  also have "unat (drop_bit (8 - r) d) = unat d div 2 ^ (8 - r)"
    by (simp only: unat_drop_bit_eq) (simp add: drop_bit_eq_div)
  finally show ?thesis .
qed

lemma shl_split:
  fixes d :: nat
  assumes "r < 8"
  shows "d div 2 ^ (8 - r) * 256 + (d * 2 ^ r) mod 256 = d * 2 ^ r"
proof -
  have p: "(256::nat) = 2 ^ (8 - r) * 2 ^ r"
    using assms by (simp flip: power_add)
  have "(d * 2 ^ r) mod 256 = (d mod 2 ^ (8 - r)) * 2 ^ r"
    unfolding p by (simp add: mult_mod_left)
  moreover have "d div 2 ^ (8 - r) * 256 = (d div 2 ^ (8 - r) * 2 ^ (8 - r)) * 2 ^ r"
    unfolding p by (simp add: mult.assoc)
  ultimately have "d div 2 ^ (8 - r) * 256 + (d * 2 ^ r) mod 256
      = (d div 2 ^ (8 - r) * 2 ^ (8 - r) + d mod 2 ^ (8 - r)) * 2 ^ r"
    by (simp only: distrib_right)
  then show ?thesis by (simp only: div_mult_mod_eq)
qed

lemma shl_bits_length: "length (shl_bits r hi ds) = Suc (length ds)"
  by (induction ds arbitrary: hi) simp_all

lemma mag_shl_bits:
  assumes "r < 8"
  shows "mag (shl_bits r hi ds) = ((unat hi * 2 ^ r) mod 256) * 256 ^ length ds + mag ds * 2 ^ r"
proof (induction ds arbitrary: hi)
  case Nil
  show ?case
    by (simp add: mag_Cons unat_push_bit_digit)
next
  case (Cons d ds)
  have "mag (shl_bits r hi (d # ds))
          = ((unat hi * 2 ^ r) mod 256 + unat d div 2 ^ (8 - r)) * 256 ^ Suc (length ds)
            + (((unat d * 2 ^ r) mod 256) * 256 ^ length ds + mag ds * 2 ^ r)"
    using unat_shl_digit [OF assms, of hi d] Cons [of d]
    by (simp add: mag_Cons BITS_def shl_bits_length)
  also have "\<dots> = ((unat hi * 2 ^ r) mod 256) * 256 ^ Suc (length ds)
                   + (unat d div 2 ^ (8 - r) * 256 + (unat d * 2 ^ r) mod 256) * 256 ^ length ds
                   + mag ds * 2 ^ r"
    by (simp add: algebra_simps)
  also have "\<dots> = ((unat hi * 2 ^ r) mod 256) * 256 ^ Suc (length ds)
                   + (unat d * 2 ^ r) * 256 ^ length ds + mag ds * 2 ^ r"
    by (simp only: shl_split [OF assms])
  also have "\<dots> = ((unat hi * 2 ^ r) mod 256) * 256 ^ length (d # ds) + mag (d # ds) * 2 ^ r"
    by (simp add: mag_Cons algebra_simps)
  finally show ?case .
qed

lemma mag_zeros: "mag (replicate q 0) = 0"
  by (induction q) (simp_all add: mag_Cons)

lemma mag_replicate_zero: "mag (xs @ replicate q 0) = mag xs * 256 ^ q"
  by (simp add: mag_append mag_zeros)

lemma to_int_op_shl: "to_int (op_shl x k) = to_int x * 2 ^ k"
proof -
  have r: "k mod 8 < 8" by simp
  have "mag (shl_bits (k mod 8) 0 (m_value x) @ replicate (k div 8) 0)
          = mag (m_value x) * 2 ^ (k mod 8) * 256 ^ (k div 8)"
    by (simp add: mag_replicate_zero mag_shl_bits [OF r])
  also have "(256::nat) ^ (k div 8) = 2 ^ (8 * (k div 8))"
    by (simp add: power_mult)
  also have "mag (m_value x) * 2 ^ (k mod 8) * 2 ^ (8 * (k div 8)) = mag (m_value x) * 2 ^ k"
    by (simp add: mult.assoc flip: power_add)
  finally have m: "mag (shl_bits (k mod 8) 0 (m_value x) @ replicate (k div 8) 0)
                     = mag (m_value x) * 2 ^ k" .
  have "to_int (op_shl x k)
          = to_int (x\<lparr>m_value := shl_bits (k mod BITS) 0 (m_value x) @ replicate (k div BITS) 0\<rparr>)"
    by (simp only: op_shl_def to_int_trim)
  also have "\<dots> = to_int x * 2 ^ k"
    using m by (simp add: to_int_def BITS_def)
  finally show ?thesis .
qed

lemma canonical_op_shl [simp]: "canonical (op_shl x k)"
  by (simp add: op_shl_def)

text \<open>A right shift by k divides the magnitude by 2 to the power k, rounding down.\<close>

lemma unat_shr_digit:
  fixes hi d :: DIGIT
  assumes "r < 8"
  shows "unat (push_bit (8 - r) hi OR drop_bit r d) = (unat hi mod 2 ^ r) * 2 ^ (8 - r) + unat d div 2 ^ r"
proof -
  have disj: "\<And>n. \<not> bit (push_bit (8 - r) hi) n \<or> \<not> bit (drop_bit r d) n"
    using assms by (auto simp: bit_push_bit_iff bit_drop_bit_eq dest!: bit_imp_le_length)
  have p: "(256::nat) = 2 ^ r * 2 ^ (8 - r)"
    using assms by (simp flip: power_add)
  have "unat (push_bit (8 - r) hi OR drop_bit r d) = unat (push_bit (8 - r) hi) OR unat (drop_bit r d)"
    by (rule unsigned_or_eq)
  also have "\<dots> = unat (push_bit (8 - r) hi) + unat (drop_bit r d)"
    by (rule disjunctive_add [symmetric]) (use disj in \<open>simp add: bit_unsigned_iff\<close>)
  also have "unat (push_bit (8 - r) hi) = (unat hi * 2 ^ (8 - r)) mod 256"
    by (rule unat_push_bit_digit)
  also have "\<dots> = (unat hi mod 2 ^ r) * 2 ^ (8 - r)"
    unfolding p by (simp add: mult_mod_left)
  also have "unat (drop_bit r d) = unat d div 2 ^ r"
    by (simp only: unat_drop_bit_eq) (simp add: drop_bit_eq_div)
  finally show ?thesis .
qed

lemma shr_bits_length: "length (shr_bits r hi ds) = length ds"
  by (induction ds arbitrary: hi) simp_all

lemma shr_step:
  fixes H d N M r :: nat
  assumes "r < 8"
  shows "(H * 256 ^ Suc n + (d * 256 ^ n + M)) div 2 ^ r
           = (H * 2 ^ (8 - r) + d div 2 ^ r) * 256 ^ n + ((d mod 2 ^ r) * 256 ^ n + M) div 2 ^ r"
proof -
  define e :: nat where "e = 2 ^ r"
  define f :: nat where "f = 2 ^ (8 - r)"
  define q where "q = d div e"
  define m where "m = d mod e"
  have fe: "256 = f * e" using assms by (simp add: e_def f_def flip: power_add)
  have d: "d = q * e + m" by (simp add: q_def m_def)
  have e0: "0 < e" by (simp add: e_def)
  have "H * 256 ^ Suc n + (d * 256 ^ n + M) = ((H * f + q) * 256 ^ n) * e + (m * 256 ^ n + M)"
    unfolding d power_Suc by (subst fe) (simp add: algebra_simps)
  then have "(H * 256 ^ Suc n + (d * 256 ^ n + M)) div e
               = (((H * f + q) * 256 ^ n) * e + (m * 256 ^ n + M)) div e"
    by (rule arg_cong)
  also have "\<dots> = (H * f + q) * 256 ^ n + (m * 256 ^ n + M) div e"
    using e0 by simp
  finally show ?thesis by (simp only: e_def f_def q_def m_def)
qed

lemma mag_shr_bits:
  assumes "r < 8"
  shows "mag (shr_bits r hi ds) = ((unat hi mod 2 ^ r) * 256 ^ length ds + mag ds) div 2 ^ r"
proof (induction ds arbitrary: hi)
  case Nil
  have "unat hi mod 2 ^ r < 2 ^ r" by simp
  then show ?case by simp
next
  case (Cons d ds)
  have "mag (shr_bits r hi (d # ds))
          = ((unat hi mod 2 ^ r) * 2 ^ (8 - r) + unat d div 2 ^ r) * 256 ^ length ds
            + ((unat d mod 2 ^ r) * 256 ^ length ds + mag ds) div 2 ^ r"
    using unat_shr_digit [OF assms, of hi d] Cons [of d]
    by (simp add: mag_Cons BITS_def shr_bits_length)
  also have "\<dots> = ((unat hi mod 2 ^ r) * 256 ^ Suc (length ds) + (unat d * 256 ^ length ds + mag ds)) div 2 ^ r"
    by (rule shr_step [OF assms, symmetric])
  finally show ?case by (simp add: mag_Cons)
qed

lemma mag_take_high: "mag (take (length v - q) v) = mag v div 256 ^ q"
proof (cases "q \<le> length v")
  case True
  have "mag v = mag (take (length v - q) v @ drop (length v - q) v)" by simp
  also have "\<dots> = mag (take (length v - q) v) * 256 ^ q + mag (drop (length v - q) v)"
    using True by (simp only: mag_append) simp
  finally have "mag v div 256 ^ q
      = (mag (take (length v - q) v) * 256 ^ q + mag (drop (length v - q) v)) div 256 ^ q"
    by simp
  also have "\<dots> = mag (take (length v - q) v)"
    using mag_lt [of "drop (length v - q) v"] True by simp
  finally show ?thesis by simp
next
  case False
  then have "(256::nat) ^ length v \<le> 256 ^ q" by (intro power_increasing) simp_all
  then have "mag v < 256 ^ q" using mag_lt [of v] by linarith
  then show ?thesis using False by simp
qed

lemma mag_op_shr: "mag (m_value (op_shr x k)) = mag (m_value x) div 2 ^ k"
proof -
  have r: "k mod 8 < 8" by simp
  have "mag (m_value (op_shr x k))
          = mag (take (length (m_value x) - k div 8) (m_value x)) div 2 ^ (k mod 8)"
    by (simp add: op_shr_def BITS_def mag_shr_bits [OF r])
  also have "\<dots> = mag (m_value x) div 256 ^ (k div 8) div 2 ^ (k mod 8)"
    by (simp only: mag_take_high)
  also have "(256::nat) ^ (k div 8) = 2 ^ (8 * (k div 8))"
    by (simp add: power_mult)
  also have "mag (m_value x) div 2 ^ (8 * (k div 8)) div 2 ^ (k mod 8) = mag (m_value x) div 2 ^ k"
    by (simp add: div_mult2_eq [symmetric] flip: power_add)
  finally show ?thesis .
qed

lemma to_int_op_shr:
  "to_int (op_shr x k) = (if m_sign x then - int (mag (m_value x) div 2 ^ k) else int (mag (m_value x) div 2 ^ k))"
proof -
  have "to_int (op_shr x k)
          = to_int (x\<lparr>m_value := shr_bits (k mod BITS) 0
                        (take (length (m_value x) - k div BITS) (m_value x))\<rparr>)"
    by (simp only: op_shr_def to_int_trim)
  also have "\<dots> = (if m_sign x then - int (mag (m_value (op_shr x k))) else int (mag (m_value (op_shr x k))))"
    by (simp add: to_int_def op_shr_def)
  finally show ?thesis by (simp only: mag_op_shr)
qed

lemma canonical_op_shr [simp]: "canonical (op_shr x k)"
  by (simp add: op_shr_def)

text \<open>Bitwise or works digit by digit; \<open>bits()\<close> bounds the magnitude.\<close>

lemma nat_digit_concat:
  fixes a b :: nat
  assumes "a < 256"
  shows "a + 256 * b = a OR push_bit 8 b"
proof -
  have "a + push_bit 8 b = a OR push_bit 8 b"
  proof (rule disjunctive_add)
    fix n
    have "take_bit 8 a = a" using assms by (simp add: take_bit_nat_eq_self)
    then have "bit a n \<Longrightarrow> n < 8"
      by (metis bit_take_bit_iff)
    then show "\<not> bit a n \<or> \<not> bit (push_bit 8 b) n"
      by (auto simp: bit_push_bit_iff)
  qed
  then show ?thesis by (simp add: push_bit_eq_mult)
qed

lemma nat_or_digit_lt:
  fixes a c :: nat
  assumes "a < 256" and "c < 256"
  shows "a OR c < 256"
proof -
  have "take_bit 8 (a OR c) = a OR c"
    using assms by (simp add: take_bit_nat_eq_self)
  then show ?thesis
    using take_bit_nat_less_exp [of 8 "a OR c"] by simp
qed

lemma nat_or_split:
  fixes a b c d :: nat
  assumes "a < 256" and "c < 256"
  shows "(a + 256 * b) OR (c + 256 * d) = (a OR c) + 256 * (b OR d)"
proof -
  have "(a + 256 * b) OR (c + 256 * d) = (a OR push_bit 8 b) OR (c OR push_bit 8 d)"
    by (simp only: nat_digit_concat [OF assms(1)] nat_digit_concat [OF assms(2)])
  also have "\<dots> = (a OR c) OR push_bit 8 (b OR d)"
    by (simp add: ac_simps)
  also have "\<dots> = (a OR c) + 256 * (b OR d)"
    by (rule nat_digit_concat [OF nat_or_digit_lt [OF assms], symmetric])
  finally show ?thesis .
qed

lemma lsd_val_or_digits: "lsd_val (or_digits xs ys) = lsd_val xs OR lsd_val ys"
proof (induction xs ys rule: or_digits.induct)
  case (1 ys)
  show ?case by simp
next
  case (2 x xs)
  show ?case by simp
next
  case (3 x xs y ys)
  have "lsd_val (or_digits (x # xs) (y # ys)) = (unat x OR unat y) + 256 * (lsd_val xs OR lsd_val ys)"
    using 3 by (simp add: unsigned_or_eq)
  also have "\<dots> = (unat x + 256 * lsd_val xs) OR (unat y + 256 * lsd_val ys)"
    by (rule nat_or_split [OF unat_digit_lt unat_digit_lt, symmetric])
  finally show ?case by simp
qed

lemma mag_op_or: "mag (m_value (op_or a b)) = mag (m_value a) OR mag (m_value b)"
  by (simp add: op_or_def mag_rev lsd_val_or_digits) (simp add: mag_def)

lemma nat_or_power_of_two:
  fixes q :: nat
  assumes "2 ^ Suc j dvd q"
  shows "q OR 2 ^ j = q + 2 ^ j"
proof (rule disjunctive_add [symmetric])
  fix n
  from assms obtain t where q: "q = 2 ^ Suc j * t" ..
  have "push_bit (Suc j) t = t * 2 ^ Suc j" by (rule push_bit_eq_mult)
  then have "q = push_bit (Suc j) t" using q by (simp only: mult.commute)
  then have "bit q n \<Longrightarrow> Suc j \<le> n" by (metis bit_push_bit_iff)
  then show "\<not> bit q n \<or> \<not> bit ((2::nat) ^ j) n"
    by (auto simp: bit_exp_iff)
qed

lemma canonical_op_or [simp]: "canonical (op_or a b)"
  by (simp add: op_or_def)

lemma leading_zeros_bound: "unat d < 2 ^ (8 - leading_zeros d)"
proof -
  define l where "l = leading_zeros d"
  have l8: "l \<le> 8"
    using length_takeWhile_le [of "\<lambda>i. \<not> bit d i" "rev [0..<8]"]
    by (simp add: l_def leading_zeros_def BITS_def)
  have tw: "takeWhile (\<lambda>i. \<not> bit d i) (rev [0..<8]) = take l (rev [0..<8])"
    unfolding l_def leading_zeros_def BITS_def by (rule takeWhile_eq_take)
  have clear: "\<not> bit d i" if "8 - l \<le> i" and "i < 8" for i
  proof -
    have "i \<in> set (take l (rev [0..<8]))"
      using that l8 by (simp add: take_rev del: upt_rec_numeral) 
    then have "i \<in> set (takeWhile (\<lambda>i. \<not> bit d i) (rev [0..<8]))" by (simp only: tw)
    then show ?thesis by (auto dest: set_takeWhileD)
  qed
  have "take_bit (8 - l) d = d"
  proof (rule bit_word_eqI)
    fix i assume "i < LENGTH(8)"
    show "bit (take_bit (8 - l) d) i = bit d i"
    proof (cases "i < 8 - l")
      case True
      then show ?thesis by (simp add: bit_take_bit_iff)
    next
      case False
      then have "\<not> bit d i" using clear [of i] \<open>i < LENGTH(8)\<close> by simp
      then show ?thesis by (simp add: bit_take_bit_iff)
    qed
  qed
  then have "unat d = take_bit (8 - l) (unat d)"
    by (metis unsigned_take_bit_eq)
  then show ?thesis
    using take_bit_nat_less_exp [of "8 - l" "unat d"] by (simp add: l_def)
qed

lemma mag_lt_bits: "mag (m_value x) < 2 ^ bits x"
proof (cases "m_value x")
  case Nil
  then show ?thesis by (simp add: bits_def)
next
  case (Cons d ds)
  have "unat d + 1 \<le> 2 ^ (8 - leading_zeros d)"
    using leading_zeros_bound [of d] by simp
  then have "(unat d + 1) * 256 ^ length ds \<le> 2 ^ (8 - leading_zeros d) * 256 ^ length ds"
    by (rule mult_le_mono1)
  moreover have "mag ds < 256 ^ length ds" by (rule mag_lt)
  ultimately have "mag (d # ds) < 2 ^ (8 - leading_zeros d) * 256 ^ length ds"
    by (simp add: mag_Cons)
  also have "(256::nat) ^ length ds = 2 ^ (8 * length ds)"
    by (simp add: power_mult)
  also have "(2::nat) ^ (8 - leading_zeros d) * 2 ^ (8 * length ds) = 2 ^ bits x"
    by (simp add: bits_def Cons BITS_def power_add mult.commute)
  finally show ?thesis using Cons by simp
qed

section \<open>Division and modulus\<close>

text \<open>
  On non-negative operands the operators used by the division loop act on the
  magnitudes.
\<close>

lemma m_sign_trim_nonneg: "\<not> m_sign x \<Longrightarrow> \<not> m_sign (trim x)"
  by (simp add: trim_def Let_def)

lemma nonneg_to_int: "\<not> m_sign x \<Longrightarrow> to_int x = int (mag (m_value x))"
  by (simp add: to_int_def)

lemma op_le_nonneg:
  assumes "canonical a" and "canonical b" and "\<not> m_sign a" and "\<not> m_sign b"
  shows "op_le a b = (mag (m_value a) \<le> mag (m_value b))"
  using assms by (simp add: op_le_iff nonneg_to_int)

lemma op_minus_nonneg:
  assumes "canonical a" and "canonical b" and "\<not> m_sign a" and "\<not> m_sign b"
    and "mag (m_value b) \<le> mag (m_value a)"
  shows "\<not> m_sign (op_minus a b)"
    and "mag (m_value (op_minus a b)) = mag (m_value a) - mag (m_value b)"
proof -
  have t: "to_int (op_minus a b) = int (mag (m_value a)) - int (mag (m_value b))"
    using assms by (simp add: to_int_op_minus nonneg_to_int)
  then have "\<not> to_int (op_minus a b) < 0" using assms(5) by simp
  then show s: "\<not> m_sign (op_minus a b)"
    using canonical_sign_iff [of "op_minus a b"] by simp
  then have "int (mag (m_value (op_minus a b))) = int (mag (m_value a)) - int (mag (m_value b))"
    using t by (simp add: nonneg_to_int)
  then show "mag (m_value (op_minus a b)) = mag (m_value a) - mag (m_value b)"
    using assms(5) by linarith
qed

lemma op_or_nonneg: "\<not> m_sign a \<Longrightarrow> \<not> m_sign (op_or a b)"
  by (simp add: op_or_def m_sign_trim_nonneg)

lemma op_shr_nonneg: "\<not> m_sign x \<Longrightarrow> \<not> m_sign (op_shr x k)"
  by (simp add: op_shr_def m_sign_trim_nonneg)

lemma op_shl_nonneg: "\<not> m_sign x \<Longrightarrow> \<not> m_sign (op_shl x k)"
  by (simp add: op_shl_def m_sign_trim_nonneg)

lemma mag_op_shl: "mag (m_value (op_shl x k)) = mag (m_value x) * 2 ^ k"
proof -
  have "to_int (op_shl (integer_abs x) k) = to_int (integer_abs x) * 2 ^ k"
    by (rule to_int_op_shl)
  moreover have "\<not> m_sign (op_shl (integer_abs x) k)"
    by (simp add: op_shl_nonneg integer_abs_def)
  moreover have "m_value (op_shl (integer_abs x) k) = m_value (op_shl x k)"
    by (simp add: op_shl_def integer_abs_def trim_def Let_def)
  ultimately have "int (mag (m_value (op_shl x k))) = int (mag (m_value x) * 2 ^ k)"
    by (simp add: nonneg_to_int integer_abs_def)
  then show ?thesis by linarith
qed

lemma divmod_loop_correct:
  assumes "canonical copyd" and "\<not> m_sign copyd" and "canonical adder" and "\<not> m_sign adder"
    and "canonical copyn" and "\<not> m_sign copyn" and "canonical q" and "\<not> m_sign q"
    and "0 < i \<Longrightarrow> mag (m_value copyd) = B * 2 ^ (i - 1)"
    and "0 < i \<Longrightarrow> mag (m_value adder) = 2 ^ (i - 1)"
    and "mag (m_value copyn) < B * 2 ^ i"
    and "2 ^ i dvd mag (m_value q)"
    and "divmod_loop i copyd adder copyn q = (q', r')"
  shows "canonical q' \<and> \<not> m_sign q' \<and> canonical r' \<and> \<not> m_sign r'
         \<and> mag (m_value q') * B + mag (m_value r') = mag (m_value q) * B + mag (m_value copyn)
         \<and> mag (m_value r') < B"
  using assms
proof (induction i arbitrary: copyd adder copyn q)
  case 0
  then show ?case by simp
next
  case (Suc j)
  let ?D = "mag (m_value copyd)" and ?N = "mag (m_value copyn)" and ?Q = "mag (m_value q)"
  have D: "?D = B * 2 ^ j" using Suc.prems(9) by simp
  have A: "mag (m_value adder) = 2 ^ j" using Suc.prems(10) by simp
  have N: "?N < B * 2 ^ Suc j" by (rule Suc.prems(11))
  have Q: "2 ^ Suc j dvd ?Q" by (rule Suc.prems(12))
  have D': "0 < j \<Longrightarrow> mag (m_value (op_shr copyd 1)) = B * 2 ^ (j - 1)"
  proof -
    assume "0 < j"
    then have "(2::nat) ^ j = 2 ^ (j - 1) * 2" by (cases j) simp_all
    then show ?thesis by (simp add: mag_op_shr D)
  qed
  have A': "0 < j \<Longrightarrow> mag (m_value (op_shr adder 1)) = 2 ^ (j - 1)"
  proof -
    assume "0 < j"
    then have "(2::nat) ^ j = 2 ^ (j - 1) * 2" by (cases j) simp_all
    then show ?thesis by (simp add: mag_op_shr A)
  qed
  show ?case
  proof (cases "op_le copyd copyn")
    case True
    then have le: "?D \<le> ?N"
      using Suc.prems(1,2,5,6) by (simp add: op_le_nonneg)
    let ?n = "op_minus copyn copyd" and ?q = "op_or q adder"
    have n1: "\<not> m_sign ?n" and n2: "mag (m_value ?n) = ?N - ?D"
      using Suc.prems(1,2,5,6) le by (simp_all add: op_minus_nonneg)
    have q2: "mag (m_value ?q) = ?Q + 2 ^ j"
      by (simp only: mag_op_or A nat_or_power_of_two [OF Q])
    have q1: "\<not> m_sign ?q" using Suc.prems(8) by (rule op_or_nonneg)
    have N': "mag (m_value ?n) < B * 2 ^ j" using N le D n2 by simp
    have "2 ^ j dvd ?Q" using Q by (rule dvd_trans [rotated]) simp
    then have Q': "2 ^ j dvd mag (m_value ?q)" by (simp add: q2)
    have loop: "divmod_loop j (op_shr copyd 1) (op_shr adder 1) ?n ?q = (q', r')"
      using Suc.prems(13) True by simp
    have "canonical q' \<and> \<not> m_sign q' \<and> canonical r' \<and> \<not> m_sign r'
          \<and> mag (m_value q') * B + mag (m_value r') = mag (m_value ?q) * B + mag (m_value ?n)
          \<and> mag (m_value r') < B"
      by (rule Suc.IH [OF _ _ _ _ _ n1 _ q1 D' A' N' Q' loop])
         (simp_all add: op_shr_nonneg Suc.prems)
    moreover have "mag (m_value ?q) * B + mag (m_value ?n) = ?Q * B + ?N"
      using le by (simp add: q2 n2 D algebra_simps)
    ultimately show ?thesis by simp
  next
    case False
    then have lt: "?N < ?D"
      using Suc.prems(1,2,5,6) by (simp add: op_le_nonneg)
    have N': "?N < B * 2 ^ j" using lt D by simp
    have Q': "2 ^ j dvd ?Q" using Q by (rule dvd_trans [rotated]) simp
    have loop: "divmod_loop j (op_shr copyd 1) (op_shr adder 1) copyn q = (q', r')"
      using Suc.prems(13) False by simp
    show ?thesis
      by (rule Suc.IH [OF _ _ _ _ Suc.prems(5,6,7,8) D' A' N' Q' loop])
         (simp_all add: op_shr_nonneg Suc.prems)
  qed
qed

lemma canonical_nonneg_to_int: "canonical x \<Longrightarrow> 0 \<le> to_int x \<Longrightarrow> \<not> m_sign x"
  using canonical_sign_iff [of x] by simp

lemma mag_integer_of_nat: "mag (m_value (integer_of_Z (int n))) = n"
proof -
  have "\<not> m_sign (integer_of_Z (int n))"
    by (rule canonical_nonneg_to_int) simp_all
  from nonneg_to_int [OF this] have "int n = int (mag (m_value (integer_of_Z (int n))))"
    by simp
  then show ?thesis by simp
qed

lemma all_zero_iff: "list_all (\<lambda>d. d = 0) v = (mag v = 0)"
  by (induction v) (simp_all add: mag_Cons unat_eq_0)

lemma to_bool_iff: "to_bool x = (mag (m_value x) \<noteq> 0)"
  by (simp add: to_bool_def all_zero_iff)

lemma canonical_integer_abs: "canonical x \<Longrightarrow> canonical (integer_abs x)"
  using canonical_trimmed [of x] by (cases "m_value x") (auto simp: canonical_def trim_def Let_def integer_abs_def)

lemma non_recursive_divmod_correct:
  assumes "canonical lhs" and "\<not> m_sign lhs" and "canonical rhs" and "\<not> m_sign rhs"
    and "0 < mag (m_value rhs)"
    and "non_recursive_divmod lhs rhs = (q, r)"
  shows "canonical q \<and> \<not> m_sign q \<and> canonical r \<and> \<not> m_sign r
         \<and> mag (m_value q) * mag (m_value rhs) + mag (m_value r) = mag (m_value lhs)
         \<and> mag (m_value r) < mag (m_value rhs)"
proof -
  define n where "n = bits lhs"
  let ?B = "mag (m_value rhs)"
  let ?copyd = "op_shl rhs (n - 1)" and ?adder = "op_shl (integer_of_Z 1) (n - 1)"
  let ?q0 = "integer_of_Z 0"
  have one: "\<not> m_sign (integer_of_Z 1)" by (rule canonical_nonneg_to_int) simp_all
  have zero: "\<not> m_sign ?q0" by (rule canonical_nonneg_to_int) simp_all
  have m1: "mag (m_value (integer_of_Z 1)) = 1" using mag_integer_of_nat [of 1] by simp
  have m0: "mag (m_value ?q0) = 0" using mag_integer_of_nat [of 0] by simp
  have loop: "divmod_loop n ?copyd ?adder lhs ?q0 = (q, r)"
    using assms(6) by (simp add: non_recursive_divmod_def n_def Let_def)
  have "mag (m_value lhs) < 2 ^ n" unfolding n_def by (rule mag_lt_bits)
  also have "(2::nat) ^ n * 1 \<le> 2 ^ n * ?B" using assms(5) by (intro mult_le_mono2) simp
  finally have N: "mag (m_value lhs) < ?B * 2 ^ n" by (simp add: mult.commute)
  have "canonical q \<and> \<not> m_sign q \<and> canonical r \<and> \<not> m_sign r
        \<and> mag (m_value q) * ?B + mag (m_value r) = mag (m_value ?q0) * ?B + mag (m_value lhs)
        \<and> mag (m_value r) < ?B"
  proof (rule divmod_loop_correct [OF _ _ _ _ assms(1,2) _ zero _ _ N _ loop])
    show "canonical ?copyd" by simp
    show "\<not> m_sign ?copyd" using assms(4) by (rule op_shl_nonneg)
    show "canonical ?adder" by simp
    show "\<not> m_sign ?adder" using one by (rule op_shl_nonneg)
    show "canonical ?q0" by simp
    show "mag (m_value ?copyd) = ?B * 2 ^ (n - 1)" by (rule mag_op_shl)
    show "mag (m_value ?adder) = 2 ^ (n - 1)" by (simp add: mag_op_shl m1)
    show "2 ^ n dvd mag (m_value ?q0)" by (simp add: m0)
  qed
  then show ?thesis by (simp add: m0)
qed

lemma dm_correct:
  assumes "canonical a" and "canonical b" and "to_int b \<noteq> 0"
  shows "\<exists>q r. dm (integer_abs a) (integer_abs b) = Inr (q, r)
           \<and> canonical q \<and> \<not> m_sign q \<and> canonical r \<and> \<not> m_sign r
           \<and> mag (m_value q) = mag (m_value a) div mag (m_value b)
           \<and> mag (m_value r) = mag (m_value a) mod mag (m_value b)"
proof -
  let ?A = "mag (m_value a)" and ?B = "mag (m_value b)"
  have B: "0 < ?B" using assms(3) by (auto simp: to_int_def split: if_splits)
  obtain q r where qr: "non_recursive_divmod (integer_abs a) (integer_abs b) = (q, r)"
    by (cases "non_recursive_divmod (integer_abs a) (integer_abs b)")
  have c: "canonical q \<and> \<not> m_sign q \<and> canonical r \<and> \<not> m_sign r
         \<and> mag (m_value q) * mag (m_value (integer_abs b)) + mag (m_value r)
             = mag (m_value (integer_abs a))
         \<and> mag (m_value r) < mag (m_value (integer_abs b))"
  proof (rule non_recursive_divmod_correct [OF _ _ _ _ _ qr])
    show "canonical (integer_abs a)" using assms(1) by (rule canonical_integer_abs)
    show "canonical (integer_abs b)" using assms(2) by (rule canonical_integer_abs)
    show "\<not> m_sign (integer_abs a)" by (simp add: integer_abs_def)
    show "\<not> m_sign (integer_abs b)" by (simp add: integer_abs_def)
    show "0 < mag (m_value (integer_abs b))" using B by (simp add: integer_abs_def)
  qed
  then have e: "?A = mag (m_value r) + mag (m_value q) * ?B" and lt: "mag (m_value r) < ?B"
    by (simp_all add: integer_abs_def)
  have "?A div ?B = mag (m_value q)" unfolding e using lt by simp
  moreover have "?A mod ?B = mag (m_value r)" unfolding e using lt by simp
  moreover have "to_bool (integer_abs b)"
    using B by (simp add: to_bool_iff integer_abs_def)
  then have "dm (integer_abs a) (integer_abs b) = Inr (q, r)"
    by (simp add: dm_def qr)
  ultimately show ?thesis using c by auto
qed



section \<open>The logarithm\<close>

text \<open>
  \<open>count_divisions b n\<close> is one more than the floor of the logarithm of n to the base
  b: it lies strictly above the exponent of the largest power of b below n.
\<close>

lemma count_divisions_bounds:
  assumes "2 \<le> b" and "0 < n"
  shows "b ^ (count_divisions b n - 1) \<le> n \<and> n < b ^ count_divisions b n"
  using assms
proof (induction n rule: less_induct)
  case (less n)
  have unfold: "count_divisions b n = Suc (count_divisions b (n div b))"
    using less.prems by (subst count_divisions.simps) simp
  show ?case
  proof (cases "n div b = 0")
    case True
    then have "n < b" using less.prems by (simp add: div_eq_0_iff)
    moreover have "count_divisions b 0 = 0" by (subst count_divisions.simps) simp
    ultimately show ?thesis using less.prems True by (simp add: unfold)
  next
    case False
    then have pos: "0 < n div b" by simp
    have lt: "n div b < n" using less.prems by simp
    let ?k = "count_divisions b (n div b)"
    have ih: "b ^ (?k - 1) \<le> n div b \<and> n div b < b ^ ?k"
      by (rule less.IH [OF lt less.prems(1) pos])
    have k: "0 < ?k" using pos less.prems(1) by (subst count_divisions.simps) simp
    have "b ^ ?k = b * b ^ (?k - 1)" using k by (cases ?k) simp_all
    also have "\<dots> \<le> b * (n div b)" using ih by simp
    also have "\<dots> \<le> n" by simp
    finally have lo: "b ^ ?k \<le> n" .
    have "n div b + 1 \<le> b ^ ?k" using ih by simp
    then have "b * (n div b + 1) \<le> b * b ^ ?k" by (rule mult_le_mono2)
    moreover have "n < b * (n div b + 1)"
      using less.prems(1) dividend_less_times_div [of b n] by (simp add: algebra_simps)
    ultimately have hi: "n < b ^ Suc ?k" by simp
    show ?thesis using lo hi by (simp add: unfold)
  qed
qed

lemma op_div_magnitude:
  assumes "canonical a" and "canonical b" and "to_int b \<noteq> 0"
  shows "\<exists>q. op_div a b = Inr q \<and> canonical q
              \<and> mag (m_value q) = mag (m_value a) div mag (m_value b)"
proof -
  from dm_correct [OF assms] obtain q0 r0 where
    dm: "dm (integer_abs a) (integer_abs b) = Inr (q0, r0)"
    and q0: "mag (m_value q0) = mag (m_value a) div mag (m_value b)"
    by blast
  have "op_div a b = Inr (trim (q0\<lparr>m_sign := (m_sign a \<noteq> m_sign b)\<rparr>))"
    by (simp add: op_div_def dm)
  then show ?thesis by (simp add: q0)
qed

lemma log_loop_correct:
  assumes "canonical x" and "canonical count" and "2 \<le> b"
  shows "\<exists>c. log_loop x (integer_of_Z (int b)) count = Some (Inr c) \<and> canonical c
              \<and> to_int c = to_int count + int (count_divisions b (mag (m_value x)))"
  using assms(1,2)
proof (induction "mag (m_value x)" arbitrary: x count rule: less_induct)
  case less
  let ?B = "integer_of_Z (int b)"
  have mB: "mag (m_value ?B) = b" by (rule mag_integer_of_nat)
  show ?case
  proof (cases "mag (m_value x) = 0")
    case True
    then have "log_loop x ?B count = Some (Inr count)"
      by (subst log_loop.simps) (simp add: to_bool_iff)
    moreover have "count_divisions b (mag (m_value x)) = 0"
      using True by (subst count_divisions.simps) simp
    ultimately show ?thesis using less.prems by simp
  next
    case False
    have nz: "to_int ?B \<noteq> 0" using assms(3) by simp
    from op_div_magnitude [OF less.prems(1) _ nz] obtain x' where
      d: "op_div x ?B = Inr x'" and cx: "canonical x'"
      and mx: "mag (m_value x') = mag (m_value x) div b"
      by (auto simp: mB)
    have lt: "mag (m_value x') < mag (m_value x)"
      using False assms(3) by (simp add: mx)
    let ?count = "op_plus count (integer_of_Z 1)"
    from less.hyps [OF lt cx, of ?count] obtain c where
      c: "log_loop x' ?B ?count = Some (Inr c)" "canonical c"
      "to_int c = to_int ?count + int (count_divisions b (mag (m_value x')))"
      by auto
    have "log_loop x ?B count = log_loop x' ?B ?count"
      using False by (subst log_loop.simps) (simp add: to_bool_iff d)
    moreover have "count_divisions b (mag (m_value x)) = Suc (count_divisions b (mag (m_value x')))"
      using False assms(3) by (subst count_divisions.simps) (simp add: mx)
    ultimately show ?thesis
      using c less.prems(2) by (simp add: to_int_op_plus)
  qed
qed

lemma integer_log_counts_digits:
  assumes "canonical v" and "2 \<le> b"
  shows "\<exists>c. integer_log v (int b) = Some (Inr c)
              \<and> to_int c = int (count_divisions b (mag (m_value v)))"
  using log_loop_correct [OF assms(1) _ assms(2), of "integer_of_Z 0"]
  by (auto simp: integer_log_def)

lemma integer_log_one_above_floor:
  assumes "canonical v" and "to_int v \<noteq> 0" and "2 \<le> b"
  shows "\<exists>c k. integer_log v (int b) = Some (Inr c) \<and> to_int c = int k + 1
                \<and> b ^ k \<le> mag (m_value v) \<and> mag (m_value v) < b ^ (k + 1)"
proof -
  have pos: "0 < mag (m_value v)" using assms(2) by (auto simp: to_int_def split: if_splits)
  from integer_log_counts_digits [OF assms(1,3)] obtain c where
    c: "integer_log v (int b) = Some (Inr c)"
       "to_int c = int (count_divisions b (mag (m_value v)))"
    by blast
  define k where "k = count_divisions b (mag (m_value v)) - 1"
  have bounds: "b ^ k \<le> mag (m_value v) \<and> mag (m_value v) < b ^ count_divisions b (mag (m_value v))"
    unfolding k_def by (rule count_divisions_bounds [OF assms(3) pos])
  have "0 < count_divisions b (mag (m_value v))"
    using pos assms(3) by (subst count_divisions.simps) simp
  then have k1: "count_divisions b (mag (m_value v)) = k + 1" by (simp add: k_def)
  show ?thesis using c bounds by (auto simp: k1)
qed

text \<open>
  Claim C5 says that for every base b of at least 2, \<open>log(b)\<close> returns the floor of the
  logarithm of |v| to the base b when v is not zero, and zero when v is zero; the
  comment above the function says "returns floor(log_b(*this))".  The loop counts the
  divisions until x becomes zero, which for a non-zero v is the number of digits of |v|
  in base b, one more than the floor of the logarithm: \<open>log\<close> of 1 to the base 2 is 1
  where the claim says 0, and \<open>log\<close> of 1000 to the base 10 is 4 where the claim says 3.
  For zero the result is zero, as claimed.
\<close>

theorem C5_log_of_one_is_one:
  "integer_log (integer_of_Z 1) 2 = Some (Inr (integer_of_Z 1))
   \<and> to_int (integer_of_Z 1) = 1
   \<and> integer_log (integer_of_Z 1000) 10 = Some (Inr (integer_of_Z 4))
   \<and> integer_log (integer_of_Z 0) 10 = Some (Inr (integer_of_Z 0))"
  by code_simp

section \<open>The iterator constructor: bases, errors and sign\<close>

lemma m_sign_trim_cleared: "m_sign (trim (x\<lparr>m_sign := False\<rparr>)) = False"
  by (simp add: trim_def Let_def)

text \<open>
  Claim C10.  Whatever the base argument is, also one outside 2..10, 16 and 256 such as 0
  or 11, the constructor applied to an empty range succeeds and yields the canonical
  zero: the test \<open>start == end\<close> returns before the base is looked at.
\<close>

theorem C10_empty_range_any_base:
  "integer_iter [] base = Inr integer0 \<and> canonical integer0 \<and> to_int integer0 = 0"
  by (simp add: integer_iter_def integer0_def canonical_def trim_def to_int_def mag_def)

text \<open>
  Claim C8, as stated: every range together with a base outside 2..10, 16 and 256 fails
  with BadBase.  The empty range does not: with base 11 the constructor returns zero.
\<close>

theorem C8_counterexample: "integer_iter [] 11 \<noteq> Inl BadBase"
  by (simp add: integer_iter_def)

text \<open>
  Claim C8, amended: for every non-empty range and every base outside 2..10, 16 and 256
  the constructor fails with BadBase.
\<close>

theorem C8_bad_base_nonempty:
  assumes "input \<noteq> []" and "\<not> (2 \<le> base \<and> base \<le> 10)" and "base \<noteq> 16" and "base \<noteq> 256"
  shows "integer_iter input base = Inl BadBase"
  using assms by (auto simp: integer_iter_def)

theorem C8_bad_base_nonempty_witness:
  "''12'' \<noteq> [] \<and> \<not> (2 \<le> (11 :: 16 word) \<and> (11 :: 16 word) \<le> 10) \<and> (11 :: 16 word) \<noteq> 16
   \<and> (11 :: 16 word) \<noteq> 256 \<and> integer_iter ''12'' 11 = Inl BadBase"
proof -
  have h1: "''12'' \<noteq> []" by simp
  have h2: "\<not> (2 \<le> (11 :: 16 word) \<and> (11 :: 16 word) \<le> 10)" by simp
  have h3: "(11 :: 16 word) \<noteq> 16" by simp
  have h4: "(11 :: 16 word) \<noteq> 256" by simp
  show ?thesis using h1 h2 h3 h4 C8_bad_base_nonempty [OF h1 h2 h3 h4] by simp
qed

text \<open>
  Claim C9.  Whenever the iterator constructor produces a value, for whatever range and
  base, that value is non-negative: its sign flag is the non-negative one.  The
  constructor ends with \<open>_sign = s\<close> where \<open>s\<close> is \<open>false\<close>, and the empty range
  returns the default-constructed zero.
\<close>

theorem C9_iterator_non_negative:
  assumes "integer_iter input base = Inr x"
  shows "m_sign x = False \<and> 0 \<le> to_int x"
proof -
  have "m_sign x = False"
    using assms
    by (auto simp: integer_iter_def integer0_def m_sign_trim_cleared
             split: if_splits sum.splits)
  then show ?thesis by (simp add: to_int_def)
qed

theorem C9_iterator_non_negative_witness:
  "integer_iter ''12'' 10 = Inr \<lparr>m_sign = False, m_value = [13]\<rparr>
   \<and> m_sign \<lparr>m_sign = False, m_value = [13]\<rparr> = False
   \<and> 0 \<le> to_int \<lparr>m_sign = False, m_value = [13]\<rparr>"
proof -
  have h: "integer_iter ''12'' 10 = Inr \<lparr>m_sign = False, m_value = [13]\<rparr>" by code_simp
  show ?thesis using h C9_iterator_non_negative [OF h] by simp
qed

section \<open>The iterator constructor: digits\<close>

text \<open>
  What the decimal loop computes on a string of digits, in any base from 2 to 10: every
  character multiplies the value by base + 1 before the digit is added.
\<close>

lemma iter_decimal_value:
  assumes "canonical this" and "list_all isdigit cs"
  shows "\<exists>r. iter_decimal this base cs = Inr r \<and> canonical r
           \<and> to_int r = foldl (\<lambda>v c. v * (uint base + 1) + (of_char c - 48)) (to_int this) cs"
  using assms
proof (induction cs arbitrary: this)
  case Nil
  then show ?case by simp
next
  case (Cons c cs)
  let ?next = "op_plus this (op_plus (op_mult this (integer_of_Z (uint base)))
                 (integer_of_Z (of_char c - 48)))"
  have v: "to_int ?next = to_int this * (uint base + 1) + (of_char c - 48)"
    using Cons.prems(1) by (simp add: to_int_op_plus algebra_simps)
  have "canonical ?next" by simp
  from Cons.IH [OF this] Cons.prems(2) obtain r where
    "iter_decimal ?next base cs = Inr r" "canonical r"
    "to_int r = foldl (\<lambda>v c. v * (uint base + 1) + (of_char c - 48)) (to_int ?next) cs"
    by auto
  then show ?case using Cons.prems(2) by (simp add: v)
qed

lemma isdigit_value: "isdigit c \<Longrightarrow> (0::int) \<le> of_char c - 48"
proof -
  assume "isdigit c"
  then have "int 48 \<le> int (of_char c)" by (simp only: isdigit_def of_nat_le_iff)
  then show ?thesis by (simp add: of_nat_of_char)
qed

lemma decimal_fold_nonneg:
  "0 \<le> v \<Longrightarrow> list_all isdigit cs
   \<Longrightarrow> 0 \<le> foldl (\<lambda>v c. v * (uint (base :: 16 word) + 1) + (of_char c - 48)) v cs"
proof (induction cs arbitrary: v)
  case Nil
  then show ?case by simp
next
  case (Cons c cs)
  have "0 \<le> v * (uint base + 1)" using Cons.prems(1) by simp
  then have "0 \<le> v * (uint base + 1) + (of_char c - 48)"
    using isdigit_value [of c] Cons.prems(2) by simp
  from Cons.IH [OF this] Cons.prems(2) show ?case by simp
qed

lemma integer_iter_decimal_value:
  assumes "input \<noteq> []" and "2 \<le> base" and "base \<le> 10" and "list_all isdigit input"
  shows "\<exists>r. integer_iter input base = Inr r
           \<and> to_int r = foldl (\<lambda>v c. v * (uint base + 1) + (of_char c - 48)) 0 input"
proof -
  let ?f = "foldl (\<lambda>v c. v * (uint base + 1) + (of_char c - 48)) 0 input"
  from iter_decimal_value [of integer0 input base] assms(4) obtain x where
    x: "iter_decimal integer0 base input = Inr x" "canonical x" "to_int x = ?f"
    by auto
  have "0 \<le> to_int x" using decimal_fold_nonneg [of 0 input base] assms(4) x(3) by simp
  then have "\<not> m_sign x" using x(2) by (rule canonical_nonneg_to_int [rotated])
  then have "x\<lparr>m_sign := False\<rparr> = x" by simp
  then have "trim (x\<lparr>m_sign := False\<rparr>) = x" using x(2) by (simp add: canonical_def)
  then show ?thesis using assms(1-3) x by (simp add: integer_iter_def)
qed

text \<open>
  Claim C2 says that in a base from 2 to 10 each character c turns the accumulated value
  into value * base + (c - '0'), so that a string of digits is read as the number it
  denotes.  The loop body is \<open>*this += (*this * base) + (*start - '0')\<close>: the old value
  is added once more, the step is value * (base + 1) + (c - '0'), and "12" in base 10 is
  read as 13 where the claim says 12; "123456789" is read as 259374245.
\<close>

theorem C2_decimal_12_reads_13:
  "integer_iter ''12'' 10 = Inr \<lparr>m_sign = False, m_value = [13]\<rparr>
   \<and> to_int \<lparr>m_sign = False, m_value = [13]\<rparr> = 13"
  by code_simp

text \<open>
  What the hexadecimal loop computes: every digit and every letter is accepted, a digit
  adds its value and a letter adds its distance from 'a' or from 'A'.
\<close>

lemma iter_hex_value:
  assumes "canonical this" and "list_all (\<lambda>c. isdigit c \<or> isalpha c) cs"
  shows "\<exists>r. iter_hex this cs = Inr r \<and> canonical r
           \<and> to_int r = foldl (\<lambda>v c. v * 16 + (if isdigit c then of_char c - 48
                                                 else if islower c then of_char c - 97
                                                 else of_char c - 65)) (to_int this) cs"
  using assms
proof (induction cs arbitrary: this)
  case Nil
  then show ?case by simp
next
  case (Cons c cs)
  let ?d = "if isdigit c then of_char c - 48 else if islower c then of_char c - 97
            else of_char c - (65 :: int)"
  let ?next = "op_plus (op_shl this 4) (integer_of_Z ?d)"
  have v: "to_int ?next = to_int this * 16 + ?d"
    by (simp add: to_int_op_plus to_int_op_shl)
  have step: "iter_hex this (c # cs) = iter_hex ?next cs"
    using Cons.prems(2) by (auto simp: isalpha_def isxdigit_def)
  have "canonical ?next" by simp
  from Cons.IH [OF this] Cons.prems(2) obtain r where
    "iter_hex ?next cs = Inr r" "canonical r"
    "to_int r = foldl (\<lambda>v c. v * 16 + (if isdigit c then of_char c - 48
                                          else if islower c then of_char c - 97
                                          else of_char c - 65)) (to_int ?next) cs"
    by auto
  then show ?case by (simp only: step v foldl_Cons) blast
qed


text \<open>
  Claim C3 says that in base 16 each character shifts the accumulated value left by four
  bits and adds the digit, 'a'..'f' and 'A'..'F' contributing 10..15.  The shift is
  there, but the letters add \<open>*start - 'a'\<close> and \<open>*start - 'A'\<close>, that is 0..5: "a"
  is read as 0 where the claim says 10, and "ff" as 85 where the claim says 255.
\<close>

theorem C3_hex_letters_lose_ten:
  "integer_iter ''a'' 16 = Inr \<lparr>m_sign = False, m_value = []\<rparr>
   \<and> integer_iter ''F'' 16 = Inr \<lparr>m_sign = False, m_value = [5]\<rparr>
   \<and> integer_iter ''ff'' 16 = Inr \<lparr>m_sign = False, m_value = [85]\<rparr>"
  by code_simp

text \<open>
  Claim C7 says that in base 16 a character outside 0-9, a-f, A-F makes the construction
  fail with InvalidDigit.  The guard is \<open>isxdigit(*start) || isalpha(*start)\<close>, every
  letter passes it, and the branch that throws "Character not between 'a' and 'f' found"
  is never reached by a letter: "g" is accepted and read as 6, "Z" as 25.
\<close>

theorem C7_hex_accepts_g:
  "integer_iter ''g'' 16 = Inr \<lparr>m_sign = False, m_value = [6]\<rparr>
   \<and> integer_iter ''Z'' 16 = Inr \<lparr>m_sign = False, m_value = [25]\<rparr>"
  by code_simp

end
